theory Spec2Isabelle
  imports Main "HOL-Library.List_Lexorder" "HOL-Library.Multiset"
begin

section \<open>Data model of \<^verbatim>\<open>src/stylesheet/snippets.ts\<close>\<close>

text \<open>
  A JavaScript string is a sequence of UTF-16 code units. A code unit is modelled as a
  natural number, so that \<^verbatim>\<open>charCodeAt\<close>, the character classes of the regular
  expression and the comparison \<^verbatim>\<open><\<close> on strings read the same numbers as the
  engine does. \<open>js\<close> turns an Isabelle literal into such a string.
\<close>

type_synonym jsstring = "nat list"

definition js :: "string \<Rightarrow> jsstring" where
  "js s = map of_char s"

text \<open>
  Snippets and arrays are objects with identity: \<^verbatim>\<open>nest\<close> sorts an array in place
  and pushes onto \<^verbatim>\<open>dependencies\<close> arrays of shared objects, and
  \<^verbatim>\<open>getKeywords\<close> compares snippets by identity (\<^verbatim>\<open>stack.includes(dep)\<close>).
  The model therefore has an explicit store: snippet objects live in \<open>objs\<close>, arrays of
  snippet references live in \<open>arrs\<close>, and an address is an index into these lists.
  Arrays that the module only reads (\<^verbatim>\<open>value\<close>) or that are local to one call
  (\<^verbatim>\<open>stack\<close>, \<^verbatim>\<open>result\<close>, the outcome of \<^verbatim>\<open>filter\<close>) are plain lists.
\<close>

type_synonym ref = nat
type_synonym aref = nat

text \<open>
  Modelled from the spec: the value nodes of the external package
  \<^verbatim>\<open>@emmetio/css-abbreviation\<close>, whose declarations are not part of this repository.
  A node is tagged \<^verbatim>\<open>Literal\<close> (it carries a string) or \<^verbatim>\<open>FunctionCall\<close> (it
  carries a name; the arguments are never read here); \<open>OtherValue\<close> stands for a node
  of any other tag, which \<^verbatim>\<open>keywordsFromValue\<close> skips. A \<^verbatim>\<open>CSSValue\<close> holds its
  nodes in the field \<^verbatim>\<open>value\<close>; a parse result (\<^verbatim>\<open>CSSProperty\<close>) holds a list of
  \<^verbatim>\<open>CSSValue\<close> in its field \<^verbatim>\<open>value\<close>.
\<close>

datatype Value = Literal jsstring | FunctionCall jsstring | OtherValue

datatype CSSValue = CSSValue (nodes: "Value list")

datatype CSSProperty = CSSProperty (prop_value: "CSSValue list")

datatype CSSSnippet =
    Raw (key: jsstring) (raw_value: jsstring)
  | Property (key: jsstring) (property: jsstring) (prop_values: "CSSValue list list")
      (dependencies: aref)

record CSSKeywordRef =
  keyword :: jsstring
  index :: nat

record store =
  objs :: "CSSSnippet list"
  arrs :: "ref list list"

datatype error = TypeError | ParseError | BadRef

fun isProperty :: "CSSSnippet \<Rightarrow> bool" where
  "isProperty (Property k p v d) = True"
| "isProperty (Raw k v) = False"

section \<open>\<^verbatim>\<open>createSnippet\<close>\<close>

text \<open>
  \<^verbatim>\<open>const reProperty = /^([a-z-]+)(?:\s*:\s*([^\n\r]+))?$/;\<close>

  The character classes: \<^verbatim>\<open>[a-z-]\<close>, \<^verbatim>\<open>\s\<close> (white space and line terminators
  of ECMAScript) and the two characters that \<^verbatim>\<open>[^\n\r]\<close> excludes.
\<close>

definition is_ident_char :: "nat \<Rightarrow> bool" where
  "is_ident_char c \<longleftrightarrow> (97 \<le> c \<and> c \<le> 122) \<or> c = 45"

definition is_space :: "nat \<Rightarrow> bool" where
  "is_space c \<longleftrightarrow>
     c = 9 \<or> c = 10 \<or> c = 11 \<or> c = 12 \<or> c = 13 \<or> c = 32 \<or> c = 160 \<or> c = 5760 \<or>
     (8192 \<le> c \<and> c \<le> 8202) \<or> c = 8232 \<or> c = 8233 \<or> c = 8239 \<or> c = 8287 \<or>
     c = 12288 \<or> c = 65279"

definition is_newline :: "nat \<Rightarrow> bool" where
  "is_newline c \<longleftrightarrow> c = 10 \<or> c = 13"

text \<open>
  The payload after the colon, \<^verbatim>\<open>\s*([^\n\r]+)$\<close>. The greedy \<^verbatim>\<open>\s*\<close> takes all
  leading white space; the group then has to run to the end of the input. When nothing
  is left for the group, the engine backtracks by one character, which the group takes
  unless it is a line terminator. The result is the text of group 2.
\<close>

definition match_payload :: "jsstring \<Rightarrow> jsstring option" where
  "match_payload s =
     (let ws = takeWhile is_space s; body = dropWhile is_space s in
      if body \<noteq> [] then (if list_ex is_newline body then None else Some body)
      else if ws \<noteq> [] \<and> \<not> is_newline (last ws) then Some [last ws]
      else None)"

text \<open>
  \<^verbatim>\<open>value.match(reProperty)\<close>: \<open>None\<close> is \<^verbatim>\<open>null\<close>; \<open>Some (m1, m2)\<close> gives the
  groups \<^verbatim>\<open>m[1]\<close> and \<^verbatim>\<open>m[2]\<close>, where \<open>m2 = None\<close> is \<^verbatim>\<open>undefined\<close>: the
  optional part did not take part in the match.
\<close>

definition match_reProperty :: "jsstring \<Rightarrow> (jsstring \<times> jsstring option) option" where
  "match_reProperty s =
     (let m1 = takeWhile is_ident_char s; rest = dropWhile is_ident_char s in
      if m1 = [] then None
      else if rest = [] then Some (m1, None)
      else (case dropWhile is_space rest of
              [] \<Rightarrow> None
            | c # after \<Rightarrow>
                if c = 58 then
                  (case match_payload after of
                     None \<Rightarrow> None
                   | Some m2 \<Rightarrow> Some (m1, Some m2))
                else None))"

text \<open>
  The strings that the regular expression accepts, read off the expression itself:
  one or more identifier characters, then nothing, or white space, a colon, white
  space, and one or more characters other than line terminators, up to the end.
\<close>

definition reProperty_lang :: "jsstring \<Rightarrow> bool" where
  "reProperty_lang s \<longleftrightarrow>
     (\<exists>ident. ident \<noteq> [] \<and> list_all is_ident_char ident \<and>
        (s = ident \<or>
         (\<exists>w1 w2 p. s = ident @ w1 @ [58] @ w2 @ p \<and> list_all is_space w1 \<and>
            list_all is_space w2 \<and> p \<noteq> [] \<and> \<not> list_ex is_newline p)))"

text \<open>\<^verbatim>\<open>String.prototype.split\<close> with a one-character separator, and \<^verbatim>\<open>trim\<close>.\<close>

fun js_split :: "nat \<Rightarrow> jsstring \<Rightarrow> jsstring list" where
  "js_split sep [] = [[]]"
| "js_split sep (c # cs) =
     (if c = sep then [] # js_split sep cs
      else (case js_split sep cs of
              w # ws \<Rightarrow> (c # w) # ws
            | [] \<Rightarrow> [[c]]))"

definition trim :: "jsstring \<Rightarrow> jsstring" where
  "trim s = rev (dropWhile is_space (rev (dropWhile is_space s)))"

text \<open>
  The parser \<^verbatim>\<open>parse\<close> of \<^verbatim>\<open>@emmetio/css-abbreviation\<close> is a parameter: it returns
  the list of parse results or throws (\<open>Inl\<close>).
  \<^verbatim>\<open>parseValue\<close> reads \<^verbatim>\<open>parse(value.trim(), opt)[0].value\<close>; on an empty result
  \<^verbatim>\<open>[0]\<close> is \<^verbatim>\<open>undefined\<close> and reading its field throws a TypeError.
\<close>

type_synonym parser = "jsstring \<Rightarrow> error + CSSProperty list"

definition parseValue :: "parser \<Rightarrow> jsstring \<Rightarrow> error + CSSValue list" where
  "parseValue parse v =
     (case parse (trim v) of
        Inl e \<Rightarrow> Inl e
      | Inr [] \<Rightarrow> Inl TypeError
      | Inr (p # ps) \<Rightarrow> Inr (prop_value p))"

text \<open>\<^verbatim>\<open>Array.prototype.map\<close> with a callback that may throw: the first throw ends it.\<close>

fun map_result :: "('a \<Rightarrow> error + 'b) \<Rightarrow> 'a list \<Rightarrow> error + 'b list" where
  "map_result f [] = Inr []"
| "map_result f (x # xs) =
     (case f x of
        Inl e \<Rightarrow> Inl e
      | Inr y \<Rightarrow> (case map_result f xs of Inl e \<Rightarrow> Inl e | Inr ys \<Rightarrow> Inr (y # ys)))"

text \<open>
  Allocation: a new array and a new snippet object get the next free addresses.
  \<^verbatim>\<open>createSnippet\<close> returns the address of the new object and the extended store.
  When the match succeeds, \<^verbatim>\<open>m[2].split('|')\<close> is evaluated with no test of
  \<^verbatim>\<open>m[2]\<close>: on \<^verbatim>\<open>undefined\<close> this throws a TypeError.
\<close>

definition alloc_obj :: "store \<Rightarrow> CSSSnippet \<Rightarrow> ref \<times> store" where
  "alloc_obj st obj = (length (objs st), st\<lparr>objs := objs st @ [obj]\<rparr>)"

definition alloc_arr :: "store \<Rightarrow> ref list \<Rightarrow> aref \<times> store" where
  "alloc_arr st xs = (length (arrs st), st\<lparr>arrs := arrs st @ [xs]\<rparr>)"

definition createSnippet :: "parser \<Rightarrow> store \<Rightarrow> jsstring \<Rightarrow> jsstring \<Rightarrow> error + (ref \<times> store)" where
  "createSnippet parse st k v =
     (case match_reProperty v of
        Some (m1, m2) \<Rightarrow>
          (case m2 of
             None \<Rightarrow> Inl TypeError
           | Some payload \<Rightarrow>
               (case map_result (parseValue parse) (js_split 124 payload) of
                  Inl e \<Rightarrow> Inl e
                | Inr vals \<Rightarrow>
                    (let (d, st1) = alloc_arr st [] in
                     Inr (alloc_obj st1 (Property k m1 vals d)))))
      | None \<Rightarrow> Inr (alloc_obj st (Raw k v)))"

section \<open>\<^verbatim>\<open>snippetsSort\<close> and \<^verbatim>\<open>Array.prototype.sort\<close>\<close>

text \<open>
  The comparison \<^verbatim>\<open>a.key < b.key\<close> of two strings: code unit by code unit, a proper
  prefix being smaller.
\<close>

fun js_string_lt :: "jsstring \<Rightarrow> jsstring \<Rightarrow> bool" where
  "js_string_lt [] [] = False"
| "js_string_lt [] (y # ys) = True"
| "js_string_lt (x # xs) [] = False"
| "js_string_lt (x # xs) (y # ys) =
     (if x < y then True else if y < x then False else js_string_lt xs ys)"

definition snippetsSort :: "CSSSnippet \<Rightarrow> CSSSnippet \<Rightarrow> int" where
  "snippetsSort a b =
     (if key a = key b then 0
      else if js_string_lt (key a) (key b) then - 1 else 1)"

text \<open>
  \<^verbatim>\<open>Array.prototype.sort\<close> is stable, and with a comparator that is a consistent
  total preorder its result is determined: the elements in ascending order, equal ones
  in their input order. \<open>js_sort\<close> computes this arrangement by stable insertion.
\<close>

fun js_insert :: "('a \<Rightarrow> 'a \<Rightarrow> int) \<Rightarrow> 'a \<Rightarrow> 'a list \<Rightarrow> 'a list" where
  "js_insert cmp x [] = [x]"
| "js_insert cmp x (y # ys) =
     (if cmp x y \<le> 0 then x # y # ys else y # js_insert cmp x ys)"

definition js_sort :: "('a \<Rightarrow> 'a \<Rightarrow> int) \<Rightarrow> 'a list \<Rightarrow> 'a list" where
  "js_sort cmp xs = foldr (js_insert cmp) xs []"

section \<open>\<^verbatim>\<open>nest\<close>\<close>

text \<open>
  \<^verbatim>\<open>s.startsWith(p)\<close> and \<^verbatim>\<open>s.charCodeAt(i)\<close>; out of range the latter is
  \<^verbatim>\<open>NaN\<close>, here \<open>None\<close>, which is not \<^verbatim>\<open>=== 45\<close>.
\<close>

definition startsWith :: "jsstring \<Rightarrow> jsstring \<Rightarrow> bool" where
  "startsWith s p \<longleftrightarrow> take (length p) s = p"

definition charCodeAt :: "jsstring \<Rightarrow> nat \<Rightarrow> nat option" where
  "charCodeAt s i = (if i < length s then Some (s ! i) else None)"

text \<open>\<^verbatim>\<open>prev.dependencies.push(cur)\<close>, on the array at address \<open>d\<close>.\<close>

definition push_dep :: "store \<Rightarrow> aref \<Rightarrow> ref \<Rightarrow> store" where
  "push_dep st d x = st\<lparr>arrs := (arrs st)[d := arrs st ! d @ [x]]\<rparr>"

text \<open>
  The inner \<^verbatim>\<open>while (stack.length)\<close> loop for one \<^verbatim>\<open>cur\<close>. The top of the stack is
  the last element of the array. The loop ends by \<^verbatim>\<open>break\<close> after the two pushes, or
  with an empty stack.
\<close>

function nest_while :: "store \<Rightarrow> ref \<Rightarrow> ref list \<Rightarrow> store \<times> ref list" where
  "nest_while st cur stack =
     (if stack \<noteq> [] then
        (let prev = last stack in
         if startsWith (property (objs st ! cur)) (property (objs st ! prev))
            \<and> charCodeAt (property (objs st ! cur)) (length (property (objs st ! prev))) = Some 45
         then (push_dep st (dependencies (objs st ! prev)) cur, stack @ [cur])
         else nest_while st cur (butlast stack))
      else (st, stack))"
  by pat_completeness auto
termination
  by (relation "measure (\<lambda>(st, cur, stack). length stack)") auto

text \<open>One round of the \<^verbatim>\<open>for\<close> loop: the inner loop, then the push of a new root.\<close>

definition nest_step :: "ref \<Rightarrow> store \<times> ref list \<Rightarrow> store \<times> ref list" where
  "nest_step cur s =
     (let (st', stack') = nest_while (fst s) cur (snd s) in
      if stack' = [] then (st', [cur]) else (st', stack'))"

text \<open>
  \<^verbatim>\<open>nest\<close> receives the address of the array \<^verbatim>\<open>snippets\<close>. The sort writes the
  sorted contents back to that address and yields the address itself, which is what
  \<^verbatim>\<open>nest\<close> returns; \<^verbatim>\<open>filter\<close> makes a new array that only the loop reads.
\<close>

definition nest :: "store \<Rightarrow> aref \<Rightarrow> store \<times> aref" where
  "nest st a =
     (let st1 = st\<lparr>arrs := (arrs st)[a :=
                   js_sort (\<lambda>x y. snippetsSort (objs st ! x) (objs st ! y)) (arrs st ! a)]\<rparr>;
          props = filter (\<lambda>r. isProperty (objs st1 ! r)) (arrs st1 ! a);
          (st2, stack) = fold nest_step props (st1, [])
      in (st2, a))"

section \<open>\<^verbatim>\<open>getKeywords\<close>\<close>

fun keyword_of :: "Value \<Rightarrow> jsstring list" where
  "keyword_of (Literal s) = [s]"
| "keyword_of (FunctionCall n) = [n]"
| "keyword_of OtherValue = []"

definition keywordsFromValue :: "CSSValue list \<Rightarrow> jsstring list" where
  "keywordsFromValue vs = concat (map (\<lambda>v. concat (map keyword_of (nodes v))) vs)"

text \<open>
  The accumulator holds \<^verbatim>\<open>result\<close> and \<^verbatim>\<open>lookup\<close>. \<open>add_keyword\<close> is the body of
  the innermost loop, \<open>scan_values\<close> the loop over \<^verbatim>\<open>index\<close>, \<open>push_deps\<close> the loop
  over \<^verbatim>\<open>item.dependencies\<close>.
\<close>

type_synonym acc = "CSSKeywordRef list \<times> jsstring set"

definition add_keyword :: "nat \<Rightarrow> jsstring \<Rightarrow> acc \<Rightarrow> acc" where
  "add_keyword idx kw acc =
     (if kw \<in> snd acc then acc
      else (fst acc @ [\<lparr>keyword = kw, index = idx\<rparr>], insert kw (snd acc)))"

definition scan_values :: "CSSValue list list \<Rightarrow> acc \<Rightarrow> acc" where
  "scan_values vals acc =
     fold (\<lambda>idx. fold (add_keyword idx) (keywordsFromValue (vals ! idx))) [0..<length vals] acc"

definition push_new :: "ref \<Rightarrow> ref list \<Rightarrow> ref list" where
  "push_new dep stack = (if dep \<in> set stack then stack else stack @ [dep])"

definition push_deps :: "ref list \<Rightarrow> ref list \<Rightarrow> ref list" where
  "push_deps deps stack = fold push_new deps stack"

text \<open>
  The \<^verbatim>\<open>while (i < stack.length)\<close> loop; it yields the final \<^verbatim>\<open>stack\<close> (the nodes in
  the order of their visit) and \<^verbatim>\<open>result\<close>. A JavaScript reference always denotes a
  live object; an address outside the store ends the model's run with \<open>BadRef\<close>. An
  item that is a Raw snippet has no \<^verbatim>\<open>dependencies\<close> and a string as
  \<^verbatim>\<open>value\<close>: iterating them throws a TypeError.
\<close>

definition all_refs :: "store \<Rightarrow> ref set" where
  "all_refs st = \<Union> (set ` set (arrs st))"

lemma finite_all_refs: "finite (all_refs st)"
  by (simp add: all_refs_def)

lemma push_new_measure:
  assumes "finite D" and "dep \<in> D"
  shows "card (D - set (push_new dep stack)) + length (push_new dep stack)
         = card (D - set stack) + length stack"
proof (cases "dep \<in> set stack")
  case True
  then show ?thesis by (simp add: push_new_def)
next
  case False
  with assms have "dep \<in> D - set stack" and fin: "finite (D - set stack)" by auto
  then have "card (D - set stack) = Suc (card (D - set stack - {dep}))"
    by (metis card.remove)
  moreover have "D - set (push_new dep stack) = D - set stack - {dep}"
    using False by (auto simp: push_new_def)
  ultimately show ?thesis using False by (simp add: push_new_def)
qed

lemma push_deps_measure:
  assumes "finite D" and "set deps \<subseteq> D"
  shows "card (D - set (push_deps deps stack)) + length (push_deps deps stack)
         = card (D - set stack) + length stack"
  using assms(2)
proof (induction deps arbitrary: stack)
  case Nil
  then show ?case by (simp add: push_deps_def)
next
  case (Cons dep deps)
  have "card (D - set (push_deps deps (push_new dep stack)))
          + length (push_deps deps (push_new dep stack))
        = card (D - set (push_new dep stack)) + length (push_new dep stack)"
    using Cons by simp
  also have "\<dots> = card (D - set stack) + length stack"
    using Cons.prems assms(1) by (simp add: push_new_measure)
  finally show ?case by (simp add: push_deps_def)
qed

lemma length_push_deps: "length stack \<le> length (push_deps deps stack)"
proof (induction deps arbitrary: stack)
  case Nil
  then show ?case by (simp add: push_deps_def)
next
  case (Cons dep deps)
  have "length stack \<le> length (push_new dep stack)" by (simp add: push_new_def)
  also have "\<dots> \<le> length (push_deps deps (push_new dep stack))" by (rule Cons)
  finally show ?case by (simp add: push_deps_def)
qed

function getKeywords_loop ::
  "store \<Rightarrow> ref list \<Rightarrow> nat \<Rightarrow> acc \<Rightarrow> error + (ref list \<times> CSSKeywordRef list)" where
  "getKeywords_loop st stack i acc =
     (if i < length stack then
        (if stack ! i < length (objs st) then
           (case objs st ! (stack ! i) of
              Raw k v \<Rightarrow> Inl TypeError
            | Property k p vals d \<Rightarrow>
                if d < length (arrs st) then
                  getKeywords_loop st (push_deps (arrs st ! d) stack) (Suc i)
                    (scan_values vals acc)
                else Inl BadRef)
         else Inl BadRef)
      else Inr (stack, fst acc))"
  by pat_completeness auto
termination
proof (relation "measure (\<lambda>(st, stack, i, acc).
          card (all_refs st - set stack) + length stack - i)", goal_cases)
  case 1
  show ?case by simp
next
  case (2 st stack i acc k p vals d)
  from 2 have "arrs st ! d \<in> set (arrs st)" by simp
  then have sub: "set (arrs st ! d) \<subseteq> all_refs st"
    unfolding all_refs_def by blast
  have eq: "card (all_refs st - set (push_deps (arrs st ! d) stack))
              + length (push_deps (arrs st ! d) stack)
            = card (all_refs st - set stack) + length stack"
    by (rule push_deps_measure [OF finite_all_refs sub])
  from 2 have "i < length stack" by simp
  with eq show ?case by simp
qed

text \<open>
  \<^verbatim>\<open>getKeywords(snippet)\<close> on the snippet at address \<open>r\<close>. The function writes to no
  object and no array of the store, so it has no store to return.
\<close>

definition getKeywords_run :: "store \<Rightarrow> ref \<Rightarrow> error + (ref list \<times> CSSKeywordRef list)" where
  "getKeywords_run st r =
     (if r < length (objs st) then
        getKeywords_loop st (if isProperty (objs st ! r) then [r] else []) 0 ([], {})
      else Inl BadRef)"

definition getKeywords :: "store \<Rightarrow> ref \<Rightarrow> error + CSSKeywordRef list" where
  "getKeywords st r =
     (case getKeywords_run st r of Inl e \<Rightarrow> Inl e | Inr (stack, result) \<Rightarrow> Inr result)"

section \<open>Notions of the specification\<close>

text \<open>
  A property name \<open>q\<close> is a longhand of \<open>p\<close> when it begins with \<open>p\<close> followed
  by a hyphen (code unit 45).
\<close>

definition hyphen_extension :: "jsstring \<Rightarrow> jsstring \<Rightarrow> bool" where
  "hyphen_extension p q \<longleftrightarrow> (\<exists>rest. q = p @ 45 # rest)"

text \<open>
  The \<^verbatim>\<open>dependencies\<close> edges of a store: from a Property snippet to each element of
  its \<^verbatim>\<open>dependencies\<close> array.
\<close>

definition dep_edges :: "store \<Rightarrow> (ref \<times> ref) set" where
  "dep_edges st =
     {(x, y). x < length (objs st) \<and> isProperty (objs st ! x) \<and>
              dependencies (objs st ! x) < length (arrs st) \<and>
              y \<in> set (arrs st ! dependencies (objs st ! x))}"

text \<open>
  How \<^verbatim>\<open>nest\<close> may change a store, given the set \<open>S\<close> of the Property snippets it
  walks over: no object changes, no array is created, and an array only gets new
  elements at its end, each of them a longhand of a snippet of \<open>S\<close> that has this
  array as its \<^verbatim>\<open>dependencies\<close>.
\<close>

definition grown :: "ref set \<Rightarrow> store \<Rightarrow> store \<Rightarrow> bool" where
  "grown S st st' \<longleftrightarrow>
     objs st' = objs st \<and> length (arrs st') = length (arrs st) \<and>
     (\<forall>e. \<exists>ext. arrs st' ! e = arrs st ! e @ ext \<and>
        (\<forall>y\<in>set ext. \<exists>x\<in>S. dependencies (objs st ! x) = e \<and> e < length (arrs st) \<and>
           hyphen_extension (property (objs st ! x)) (property (objs st ! y))))"

text \<open>
  The snippet at \<open>r\<close> is not mutated between the stores \<open>st\<close> and \<open>st'\<close>: every
  snippet that can be reached from \<open>r\<close> along the \<^verbatim>\<open>dependencies\<close> edges of \<open>st\<close>
  is the same object with the same fields in both, and its \<^verbatim>\<open>dependencies\<close> array
  has the same elements in both. Nothing is asked of the rest of the store.
\<close>

definition unchanged_from :: "store \<Rightarrow> store \<Rightarrow> ref \<Rightarrow> bool" where
  "unchanged_from st st' r \<longleftrightarrow>
     (\<forall>n. (r, n) \<in> (dep_edges st)\<^sup>* \<longrightarrow>
        (n < length (objs st') \<longleftrightarrow> n < length (objs st)) \<and>
        (n < length (objs st) \<longrightarrow>
           objs st' ! n = objs st ! n \<and>
           (isProperty (objs st ! n) \<longrightarrow>
              (dependencies (objs st ! n) < length (arrs st')
                 \<longleftrightarrow> dependencies (objs st ! n) < length (arrs st)) \<and>
              (dependencies (objs st ! n) < length (arrs st) \<longrightarrow>
                 arrs st' ! dependencies (objs st ! n) = arrs st ! dependencies (objs st ! n)))))"

text \<open>
  The typing of the source in a store: the \<^verbatim>\<open>dependencies\<close> of a Property snippet
  is an array of the store, and its elements are Property snippets of the store
  (\<^verbatim>\<open>dependencies: CSSSnippetProperty[]\<close>).
\<close>

definition wf_store :: "store \<Rightarrow> bool" where
  "wf_store st \<longleftrightarrow>
     list_all (\<lambda>s. isProperty s \<longrightarrow>
                 dependencies s < length (arrs st) \<and>
                 list_all (\<lambda>y. y < length (objs st) \<and> isProperty (objs st ! y))
                   (arrs st ! dependencies s))
       (objs st)"

text \<open>
  The keywords of one snippet: those of all its alternatives; a Raw snippet has none.
  \<open>occs\<close> lists the keywords of a \<^verbatim>\<open>value\<close> with the position of their
  alternative, in the order in which the two inner loops of \<^verbatim>\<open>getKeywords\<close> meet
  them.
\<close>

definition node_keywords :: "CSSSnippet \<Rightarrow> jsstring set" where
  "node_keywords s =
     (if isProperty s then (\<Union>alt\<in>set (prop_values s). set (keywordsFromValue alt)) else {})"

definition occs :: "CSSValue list list \<Rightarrow> (nat \<times> jsstring) list" where
  "occs vals =
     concat (map (\<lambda>idx. map (Pair idx) (keywordsFromValue (vals ! idx))) [0..<length vals])"

text \<open>
  For the loop of \<^verbatim>\<open>nest\<close>: the conditions on the sorted Property snippets it walks
  over (\<open>nest_input_ok\<close>), and what holds between two rounds, when the snippets of
  \<open>done\<close> have been handled and those of \<open>todo\<close> are still to come (\<open>nest_inv\<close>):
  the stack is a chain of dependencies, every handled snippet reaches its handled
  longhands, and a handled snippet with a longhand still to come is on the stack.
\<close>

definition nest_input_ok :: "store \<Rightarrow> ref list \<Rightarrow> bool" where
  "nest_input_ok st ps \<longleftrightarrow>
     (\<forall>r\<in>set ps. r < length (objs st) \<and> isProperty (objs st ! r) \<and>
        dependencies (objs st ! r) < length (arrs st) \<and>
        (\<forall>c\<in>set (property (objs st ! r)). 45 \<le> c)) \<and>
     sorted_wrt (\<lambda>x y. property (objs st ! x) < property (objs st ! y)) ps"

definition nest_inv :: "store \<Rightarrow> ref list \<Rightarrow> ref list \<Rightarrow> ref list \<Rightarrow> bool" where
  "nest_inv st done todo stack \<longleftrightarrow>
     set stack \<subseteq> set done \<and>
     sorted_wrt (\<lambda>x y. (x, y) \<in> (dep_edges st)\<^sup>+) stack \<and>
     (\<forall>x\<in>set done. \<forall>y\<in>set done.
        hyphen_extension (property (objs st ! x)) (property (objs st ! y)) \<longrightarrow>
        (x, y) \<in> (dep_edges st)\<^sup>+) \<and>
     (\<forall>x\<in>set done. \<forall>y\<in>set todo.
        hyphen_extension (property (objs st ! x)) (property (objs st ! y)) \<longrightarrow>
        x \<in> set stack)"

section \<open>Example stores\<close>

text \<open>
  The four properties of the specification's example and a Raw snippet, in an array at
  address 0 that is not sorted; every Property has a \<^verbatim>\<open>dependencies\<close> array of
  its own, empty as \<^verbatim>\<open>createSnippet\<close> leaves it. The second store holds
  \<^verbatim>\<open>borderx\<close>, \<^verbatim>\<open>border-width\<close> and \<^verbatim>\<open>border\<close>.
\<close>

definition store_background :: store where
  "store_background =
     \<lparr>objs = [Property (js ''border'') (js ''border'') [] 1,
              Property (js ''background-position-x'') (js ''background-position-x'') [] 2,
              Raw (js ''bz'') (js ''some text''),
              Property (js ''background'') (js ''background'') [] 3,
              Property (js ''background-position'') (js ''background-position'') [] 4],
      arrs = [[0, 1, 2, 3, 4], [], [], [], []]\<rparr>"

definition store_border :: store where
  "store_border =
     \<lparr>objs = [Property (js ''borderx'') (js ''borderx'') [] 1,
              Property (js ''border-width'') (js ''border-width'') [] 2,
              Property (js ''border'') (js ''border'') [] 3],
      arrs = [[0, 1, 2], [], [], []]\<rparr>"

text \<open>
  A store with a cycle: the snippet at 0 has the snippet at 1 as its dependency, and
  the snippet at 1 has the snippet at 0. The snippet at 2 is apart. In \<open>store_cycle'\<close>
  the snippet at 2 has got a dependency and a new Raw snippet has been created; the
  snippets at 0 and 1 are as they were.
\<close>

definition store_cycle :: store where
  "store_cycle =
     \<lparr>objs = [Property (js ''a'') (js ''a'')
                 [[CSSValue [Literal (js ''x''), FunctionCall (js ''f'')]],
                  [CSSValue [Literal (js ''y''), Literal (js ''x'')]]] 0,
              Property (js ''b'') (js ''b'')
                 [[CSSValue [Literal (js ''y'')]],
                  [CSSValue [Literal (js ''z''), OtherValue]]] 1,
              Property (js ''c'') (js ''c'') [[CSSValue [Literal (js ''w'')]]] 2],
      arrs = [[1], [0], []]\<rparr>"

definition store_cycle' :: store where
  "store_cycle' =
     \<lparr>objs = objs store_cycle @ [Raw (js ''t'') (js ''text'')],
      arrs = [[1], [0], [0]]\<rparr>"

text \<open>
  A store with two Property snippets registered under keys that are not their property
  names: \<^verbatim>\<open>a\<close> under the key \<^verbatim>\<open>z\<close>, and \<^verbatim>\<open>a-b\<close> under the key \<^verbatim>\<open>b\<close>.
\<close>

definition store_alias :: store where
  "store_alias =
     \<lparr>objs = [Property (js ''z'') (js ''a'') [] 1,
              Property (js ''b'') (js ''a-b'') [] 2],
      arrs = [[0, 1], [], []]\<rparr>"

text \<open>
  Stores in which arrays are shared. In \<open>store_self\<close> the array at 0 holds the three
  snippets and is at the same time the \<^verbatim>\<open>dependencies\<close> array of the snippet
  \<^verbatim>\<open>a\<close>. In \<open>store_shared\<close> the snippets \<^verbatim>\<open>border\<close> and \<^verbatim>\<open>borderx\<close> have
  one and the same \<^verbatim>\<open>dependencies\<close> array, at 1.
\<close>

definition store_self :: store where
  "store_self =
     \<lparr>objs = [Property (js ''b'') (js ''b'') [] 1,
              Property (js ''a-b'') (js ''a-b'') [] 2,
              Property (js ''a'') (js ''a'') [] 0],
      arrs = [[0, 1, 2], [], []]\<rparr>"

definition store_shared :: store where
  "store_shared =
     \<lparr>objs = [Property (js ''border'') (js ''border'') [] 1,
              Property (js ''borderx'') (js ''borderx'') [] 1,
              Property (js ''borderx-a'') (js ''borderx-a'') [] 2],
      arrs = [[0, 1, 2], [], []]\<rparr>"


section \<open>Properties of \<^verbatim>\<open>createSnippet\<close>\<close>

subsection \<open>The matcher accepts the language of the regular expression\<close>

lemma not_ident_space: "is_space c \<Longrightarrow> \<not> is_ident_char c"
  by (auto simp: is_space_def is_ident_char_def)

lemma not_ident_colon: "\<not> is_ident_char 58" "\<not> is_space 58"
  by (auto simp: is_space_def is_ident_char_def)

lemma match_payload_Some_iff:
  "(\<exists>m. match_payload s = Some m) \<longleftrightarrow>
   (\<exists>w2 p. s = w2 @ p \<and> list_all is_space w2 \<and> p \<noteq> [] \<and> \<not> list_ex is_newline p)"
proof
  assume "\<exists>m. match_payload s = Some m"
  then obtain m where m: "match_payload s = Some m" ..
  let ?ws = "takeWhile is_space s" and ?body = "dropWhile is_space s"
  have s: "s = ?ws @ ?body" by simp
  have ws: "list_all is_space ?ws" by (simp add: list_all_iff) (meson set_takeWhileD)
  show "\<exists>w2 p. s = w2 @ p \<and> list_all is_space w2 \<and> p \<noteq> [] \<and> \<not> list_ex is_newline p"
  proof (cases "?body = []")
    case False
    with m have "\<not> list_ex is_newline ?body"
      by (auto simp: match_payload_def Let_def split: if_splits)
    with False s ws show ?thesis by blast
  next
    case True
    with m have ne: "?ws \<noteq> []" and nl: "\<not> is_newline (last ?ws)"
      by (auto simp: match_payload_def Let_def split: if_splits)
    have "s = butlast ?ws @ [last ?ws]" using True ne s
      by (metis append_butlast_last_id append_Nil2)
    moreover have "list_all is_space (butlast ?ws)"
      using ws by (metis in_set_butlastD list_all_iff)
    ultimately show ?thesis using nl
      by (intro exI [of _ "butlast ?ws"] exI [of _ "[last ?ws]"]) simp
  qed
next
  assume "\<exists>w2 p. s = w2 @ p \<and> list_all is_space w2 \<and> p \<noteq> [] \<and> \<not> list_ex is_newline p"
  then obtain w2 p where s: "s = w2 @ p" and w2: "list_all is_space w2" and p: "p \<noteq> []"
    and nl: "\<not> list_ex is_newline p" by blast
  have tw: "takeWhile is_space s = w2 @ takeWhile is_space p"
    and dw: "dropWhile is_space s = dropWhile is_space p"
    using s w2 by (simp_all add: list_all_iff)
  show "\<exists>m. match_payload s = Some m"
  proof (cases "dropWhile is_space p = []")
    case False
    have "set (dropWhile is_space p) \<subseteq> set p" by (simp add: set_dropWhileD subsetI)
    with nl have "\<not> list_ex is_newline (dropWhile is_space p)"
      by (auto simp: list_ex_iff)
    with False dw show ?thesis by (simp add: match_payload_def Let_def)
  next
    case True
    then have "takeWhile is_space p = p"
      by (metis takeWhile_dropWhile_id append_Nil2)
    with tw have "takeWhile is_space s = w2 @ p" by simp
    moreover have "\<not> is_newline (last p)" using nl p by (auto simp: list_ex_iff)
    ultimately show ?thesis using True dw p by (simp add: match_payload_def Let_def)
  qed
qed

lemma match_reProperty_lang: "(\<exists>m. match_reProperty s = Some m) \<longleftrightarrow> reProperty_lang s"
proof
  assume "\<exists>m. match_reProperty s = Some m"
  then obtain m where m: "match_reProperty s = Some m" ..
  let ?id = "takeWhile is_ident_char s" and ?rest = "dropWhile is_ident_char s"
  have s: "s = ?id @ ?rest" by simp
  have id: "list_all is_ident_char ?id" by (simp add: list_all_iff) (meson set_takeWhileD)
  from m have ne: "?id \<noteq> []" by (auto simp: match_reProperty_def Let_def split: if_splits)
  show "reProperty_lang s"
  proof (cases "?rest = []")
    case True
    with s have "s = ?id" by simp
    with ne id show ?thesis unfolding reProperty_lang_def by metis
  next
    case False
    let ?w1 = "takeWhile is_space ?rest"
    from m False ne obtain after m2 where dr: "dropWhile is_space ?rest = 58 # after"
      and mp: "match_payload after = Some m2"
      by (auto simp: match_reProperty_def Let_def split: if_splits list.splits option.splits)
    from mp obtain w2 p where after: "after = w2 @ p" and w2: "list_all is_space w2"
      and p: "p \<noteq> []" "\<not> list_ex is_newline p"
      using match_payload_Some_iff by blast
    have "?rest = ?w1 @ 58 # after" using dr by (metis takeWhile_dropWhile_id)
    with s after have "s = ?id @ ?w1 @ [58] @ w2 @ p" by simp
    moreover have "list_all is_space ?w1" by (simp add: list_all_iff) (meson set_takeWhileD)
    ultimately show ?thesis using ne id w2 p unfolding reProperty_lang_def by blast
  qed
next
  assume "reProperty_lang s"
  then obtain ident where ne: "ident \<noteq> []" and id: "list_all is_ident_char ident"
    and alt: "s = ident \<or> (\<exists>w1 w2 p. s = ident @ w1 @ [58] @ w2 @ p \<and> list_all is_space w1 \<and>
            list_all is_space w2 \<and> p \<noteq> [] \<and> \<not> list_ex is_newline p)"
    unfolding reProperty_lang_def by blast
  from alt show "\<exists>m. match_reProperty s = Some m"
  proof
    assume "s = ident"
    have tw: "takeWhile is_ident_char s = s" and dw: "dropWhile is_ident_char s = []"
      using id \<open>s = ident\<close> by (simp_all add: list_all_iff)
    show ?thesis unfolding match_reProperty_def Let_def tw dw
      using ne \<open>s = ident\<close> by simp
  next
    assume "\<exists>w1 w2 p. s = ident @ w1 @ [58] @ w2 @ p \<and> list_all is_space w1 \<and>
            list_all is_space w2 \<and> p \<noteq> [] \<and> \<not> list_ex is_newline p"
    then obtain w1 w2 p where s: "s = ident @ w1 @ [58] @ w2 @ p" and w1: "list_all is_space w1"
      and w2: "list_all is_space w2" and p: "p \<noteq> []" "\<not> list_ex is_newline p" by blast
    have hd: "\<not> is_ident_char (hd (w1 @ [58] @ w2 @ p))"
      using w1 not_ident_colon not_ident_space by (cases w1) (auto)
    have tw: "takeWhile is_ident_char s = ident"
      using s id hd by (cases "w1 @ [58] @ w2 @ p") (auto simp: list_all_iff takeWhile_append2 )
    have dw: "dropWhile is_ident_char s = w1 @ [58] @ w2 @ p"
      using s id hd by (cases "w1 @ [58] @ w2 @ p") (auto simp: list_all_iff)
    have dw2: "dropWhile is_space (w1 @ [58] @ w2 @ p) = 58 # w2 @ p"
      using w1 not_ident_colon by (simp add: list_all_iff)
    obtain m2 where "match_payload (w2 @ p) = Some m2"
      using match_payload_Some_iff w2 p by blast
    then show ?thesis unfolding match_reProperty_def Let_def tw dw dw2
      using ne by simp
  qed
qed

lemma match_reProperty_None_iff: "match_reProperty s = None \<longleftrightarrow> \<not> reProperty_lang s"
  using match_reProperty_lang [of s] by (cases "match_reProperty s") auto

subsection \<open>Definitions with a value payload\<close>

text \<open>
  When the pattern matches with its optional part present and the parser returns a
  result for every alternative, \<^verbatim>\<open>createSnippet\<close> makes a Property snippet: its
  property is the identifier, its values are the parsed alternatives in their order,
  and its \<^verbatim>\<open>dependencies\<close> is a new, empty array.
\<close>

lemma map_result_Inr:
  "map_result f xs = Inr ys \<longleftrightarrow> list_all2 (\<lambda>x y. f x = Inr y) xs ys"
proof (induction xs arbitrary: ys)
  case Nil
  then show ?case by auto
next
  case (Cons x xs)
  show ?case
  proof (cases "f x")
    case (Inl e)
    then show ?thesis by (auto simp: list_all2_Cons1)
  next
    case (Inr y)
    with Cons show ?thesis
      by (cases "map_result f xs") (auto simp: list_all2_Cons1)
  qed
qed

lemma createSnippet_property:
  assumes "match_reProperty v = Some (m1, Some payload)"
    and "list_all2 (\<lambda>alt val. parseValue parse alt = Inr val) (js_split 124 payload) vals"
  shows "createSnippet parse st k v =
           Inr (length (objs st),
                st\<lparr>objs := objs st @ [Property k m1 vals (length (arrs st))],
                   arrs := arrs st @ [[]]\<rparr>)"
proof -
  from assms(2) have "map_result (parseValue parse) (js_split 124 payload) = Inr vals"
    by (simp add: map_result_Inr)
  with assms(1) show ?thesis
    by (simp add: createSnippet_def alloc_arr_def alloc_obj_def)
qed

subsection \<open>Definitions outside the pattern\<close>

text \<open>
  C8. A definition string that the property pattern does not match makes
  \<^verbatim>\<open>createSnippet\<close> return a Raw snippet that stores the key and the string as
  they are: a new object at the next free address, nothing else in the store changed.
  The call cannot fail, whatever the parser does, since the parser is not called.
\<close>

theorem createSnippet_raw_fallback:
  "\<not> reProperty_lang v \<Longrightarrow>
   createSnippet parse st k v = Inr (length (objs st), st\<lparr>objs := objs st @ [Raw k v]\<rparr>)"
  by (simp add: createSnippet_def alloc_obj_def match_reProperty_None_iff [symmetric])

theorem createSnippet_raw_fallback_witness:
  "\<not> reProperty_lang (js ''margin 0 auto'') \<and>
   createSnippet (\<lambda>s. Inl ParseError) \<lparr>objs = [], arrs = []\<rparr> (js ''m'') (js ''margin 0 auto'')
     = Inr (0, \<lparr>objs = [Raw (js ''m'') (js ''margin 0 auto'')], arrs = []\<rparr>)"
proof -
  have "match_reProperty (js ''margin 0 auto'') = None"
    by (simp add: match_reProperty_def js_def is_ident_char_def is_space_def)
  then have h: "\<not> reProperty_lang (js ''margin 0 auto'')"
    by (simp add: match_reProperty_None_iff)
  show ?thesis
    using h createSnippet_raw_fallback [OF h, of "\<lambda>s. Inl ParseError" "\<lparr>objs = [], arrs = []\<rparr>" "js ''m''"]
    by simp
qed

subsection \<open>Definitions that are an identifier and nothing else\<close>

text \<open>
  C2, at a definition that the pattern accepts with its optional part absent. The
  string \<^verbatim>\<open>display\<close> is accepted by the regular expression, and
  \<^verbatim>\<open>createSnippet\<close> throws a TypeError on it, for every parser, store and key:
  \<^verbatim>\<open>m[2]\<close> is \<^verbatim>\<open>undefined\<close> and \<^verbatim>\<open>m[2].split\<close> is evaluated all the same.
\<close>

theorem createSnippet_identifier_only_throws:
  "reProperty_lang (js ''display'') \<and>
   match_reProperty (js ''display'') = Some (js ''display'', None) \<and>
   createSnippet parse st k (js ''display'') = Inl TypeError"
proof -
  have m: "match_reProperty (js ''display'') = Some (js ''display'', None)"
    by (simp add: match_reProperty_def js_def is_ident_char_def)
  then have "reProperty_lang (js ''display'')"
    using match_reProperty_lang [of "js ''display''"] by simp
  with m show ?thesis by (simp add: createSnippet_def)
qed

section \<open>Properties of the sort\<close>

lemma js_string_lt_iff: "js_string_lt a b \<longleftrightarrow> a < b"
  by (induction a b rule: js_string_lt.induct) auto

lemma snippetsSort_le_iff: "snippetsSort a b \<le> 0 \<longleftrightarrow> key a \<le> key b"
  by (auto simp: snippetsSort_def js_string_lt_iff)

lemma snippetsSort_less_iff: "snippetsSort a b = - 1 \<longleftrightarrow> key a < key b"
  by (auto simp: snippetsSort_def js_string_lt_iff)

lemma js_insert_insort:
  "js_insert (\<lambda>x y. snippetsSort (f x) (f y)) x ys = insort_key (\<lambda>r. key (f r)) x ys"
  by (induction ys) (simp_all add: snippetsSort_le_iff)

lemma js_sort_sort_key:
  "js_sort (\<lambda>x y. snippetsSort (f x) (f y)) xs = sort_key (\<lambda>r. key (f r)) xs"
proof -
  have "js_insert (\<lambda>x y. snippetsSort (f x) (f y)) = insort_key (\<lambda>r. key (f r))"
    by (intro ext) (rule js_insert_insort)
  then show ?thesis by (simp add: js_sort_def sort_key_def)
qed

lemma hyphen_extension_code:
  "hyphen_extension p q \<longleftrightarrow> startsWith q p \<and> charCodeAt q (length p) = Some 45"
proof
  assume "hyphen_extension p q"
  then show "startsWith q p \<and> charCodeAt q (length p) = Some 45"
    by (auto simp: hyphen_extension_def startsWith_def charCodeAt_def)
next
  assume a: "startsWith q p \<and> charCodeAt q (length p) = Some 45"
  then have t: "take (length p) q = p" and l: "length p < length q" and c: "q ! length p = 45"
    by (auto simp: startsWith_def charCodeAt_def split: if_splits)
  have "q = take (length p) q @ drop (length p) q" by simp
  also have "drop (length p) q = q ! length p # drop (Suc (length p)) q"
    using l by (simp add: Cons_nth_drop_Suc)
  finally have "q = p @ 45 # drop (Suc (length p)) q" using t c by simp
  then show "hyphen_extension p q" unfolding hyphen_extension_def by blast
qed

lemma between_extension:
  fixes p c :: jsstring
  shows "p < c \<Longrightarrow> c < p @ 45 # rest \<Longrightarrow> \<forall>ch\<in>set c. 45 \<le> ch \<Longrightarrow> \<exists>rest'. c = p @ 45 # rest'"
proof (induction p arbitrary: c)
  case Nil
  then show ?case by (cases c) auto
next
  case (Cons x p)
  then show ?case by (cases c) auto
qed

lemma hyphen_extension_less: "hyphen_extension p q \<Longrightarrow> p < q"
  unfolding hyphen_extension_def by (induction p arbitrary: q) auto


section \<open>Properties of \<^verbatim>\<open>nest\<close>\<close>

subsection \<open>The inner loop and one round\<close>

declare nest_while.simps [simp del]

lemma objs_push_dep: "objs (push_dep st d x) = objs st"
  by (simp add: push_dep_def)

lemma length_arrs_push_dep: "length (arrs (push_dep st d x)) = length (arrs st)"
  by (simp add: push_dep_def)

lemma arrs_push_dep_nth:
  "arrs (push_dep st d x) ! e =
     (if e = d \<and> d < length (arrs st) then arrs st ! d @ [x] else arrs st ! e)"
proof (cases "d < length (arrs st)")
  case True
  then show ?thesis by (simp add: push_dep_def nth_list_update)
next
  case False
  then have "(arrs st)[d := arrs st ! d @ [x]] = arrs st"
    by (intro list_update_beyond) simp
  with False show ?thesis by (simp add: push_dep_def)
qed

lemma nest_while_Nil: "nest_while st cur [] = (st, [])"
  by (simp add: nest_while.simps)

lemma nest_while_snoc:
  "nest_while st cur (xs @ [x]) =
     (if hyphen_extension (property (objs st ! x)) (property (objs st ! cur))
      then (push_dep st (dependencies (objs st ! x)) cur, xs @ [x, cur])
      else nest_while st cur xs)"
  by (subst nest_while.simps) (simp add: hyphen_extension_code)

lemma nest_while_cases:
  assumes "nest_while st cur stack = (st', stack')"
  shows "(st' = st \<and> stack' = [] \<and>
          (\<forall>s\<in>set stack. \<not> hyphen_extension (property (objs st ! s)) (property (objs st ! cur))))
       \<or> (\<exists>pre prev post. stack = pre @ prev # post \<and>
            (\<forall>s\<in>set post. \<not> hyphen_extension (property (objs st ! s)) (property (objs st ! cur))) \<and>
            hyphen_extension (property (objs st ! prev)) (property (objs st ! cur)) \<and>
            st' = push_dep st (dependencies (objs st ! prev)) cur \<and>
            stack' = pre @ [prev, cur])"
  using assms
proof (induction stack rule: rev_induct)
  case Nil
  then show ?case by (simp add: nest_while_Nil)
next
  case (snoc x xs)
  show ?case
  proof (cases "hyphen_extension (property (objs st ! x)) (property (objs st ! cur))")
    case True
    with snoc.prems have "st' = push_dep st (dependencies (objs st ! x)) cur" "stack' = xs @ [x, cur]"
      by (simp_all add: nest_while_snoc)
    with True have "xs @ [x] = xs @ x # [] \<and>
            (\<forall>s\<in>set []. \<not> hyphen_extension (property (objs st ! s)) (property (objs st ! cur))) \<and>
            hyphen_extension (property (objs st ! x)) (property (objs st ! cur)) \<and>
            st' = push_dep st (dependencies (objs st ! x)) cur \<and>
            stack' = xs @ [x, cur]" by simp
    then show ?thesis by blast
  next
    case False
    with snoc.prems have "nest_while st cur xs = (st', stack')"
      by (simp add: nest_while_snoc)
    from snoc.IH [OF this] show ?thesis
    proof
      assume "st' = st \<and> stack' = [] \<and>
          (\<forall>s\<in>set xs. \<not> hyphen_extension (property (objs st ! s)) (property (objs st ! cur)))"
      with False show ?thesis by simp
    next
      assume "\<exists>pre prev post. xs = pre @ prev # post \<and>
            (\<forall>s\<in>set post. \<not> hyphen_extension (property (objs st ! s)) (property (objs st ! cur))) \<and>
            hyphen_extension (property (objs st ! prev)) (property (objs st ! cur)) \<and>
            st' = push_dep st (dependencies (objs st ! prev)) cur \<and>
            stack' = pre @ [prev, cur]"
      then obtain pre prev post where h: "xs = pre @ prev # post"
            "\<forall>s\<in>set post. \<not> hyphen_extension (property (objs st ! s)) (property (objs st ! cur))"
            "hyphen_extension (property (objs st ! prev)) (property (objs st ! cur))"
            "st' = push_dep st (dependencies (objs st ! prev)) cur"
            "stack' = pre @ [prev, cur]" by blast
      have "xs @ [x] = pre @ prev # (post @ [x])" using h(1) by simp
      moreover have "\<forall>s\<in>set (post @ [x]). \<not> hyphen_extension (property (objs st ! s)) (property (objs st ! cur))"
        using h(2) False by simp
      ultimately show ?thesis using h(3,4,5) by blast
    qed
  qed
qed

lemma nest_step_cases:
  assumes "nest_step cur (st, stack) = (st', stack')"
  shows "(st' = st \<and> stack' = [cur] \<and>
          (\<forall>s\<in>set stack. \<not> hyphen_extension (property (objs st ! s)) (property (objs st ! cur))))
       \<or> (\<exists>pre prev post. stack = pre @ prev # post \<and>
            (\<forall>s\<in>set post. \<not> hyphen_extension (property (objs st ! s)) (property (objs st ! cur))) \<and>
            hyphen_extension (property (objs st ! prev)) (property (objs st ! cur)) \<and>
            st' = push_dep st (dependencies (objs st ! prev)) cur \<and>
            stack' = pre @ [prev, cur])"
proof -
  obtain st1 stack1 where w: "nest_while st cur stack = (st1, stack1)" by fastforce
  from nest_while_cases [OF w] show ?thesis
  proof
    assume "st1 = st \<and> stack1 = [] \<and>
          (\<forall>s\<in>set stack. \<not> hyphen_extension (property (objs st ! s)) (property (objs st ! cur)))"
    with assms w show ?thesis by (simp add: nest_step_def)
  next
    assume "\<exists>pre prev post. stack = pre @ prev # post \<and>
            (\<forall>s\<in>set post. \<not> hyphen_extension (property (objs st ! s)) (property (objs st ! cur))) \<and>
            hyphen_extension (property (objs st ! prev)) (property (objs st ! cur)) \<and>
            st1 = push_dep st (dependencies (objs st ! prev)) cur \<and>
            stack1 = pre @ [prev, cur]"
    then obtain pre prev post where h: "stack = pre @ prev # post"
            "\<forall>s\<in>set post. \<not> hyphen_extension (property (objs st ! s)) (property (objs st ! cur))"
            "hyphen_extension (property (objs st ! prev)) (property (objs st ! cur))"
            "st1 = push_dep st (dependencies (objs st ! prev)) cur"
            "stack1 = pre @ [prev, cur]" by blast
    with assms w have "st' = st1" "stack' = stack1" by (simp_all add: nest_step_def)
    with h show ?thesis by blast
  qed
qed

lemma grown_refl: "grown S st st"
  by (simp add: grown_def)

lemma grown_trans:
  assumes "grown S st st1" "grown S st1 st2"
  shows "grown S st st2"
proof -
  have o: "objs st1 = objs st" "objs st2 = objs st"
    and l: "length (arrs st1) = length (arrs st)" "length (arrs st2) = length (arrs st)"
    using assms by (simp_all add: grown_def)
  have "\<exists>ext. arrs st2 ! e = arrs st ! e @ ext \<and>
        (\<forall>y\<in>set ext. \<exists>x\<in>S. dependencies (objs st ! x) = e \<and> e < length (arrs st) \<and>
           hyphen_extension (property (objs st ! x)) (property (objs st ! y)))" for e
  proof -
    obtain ext1 where e1: "arrs st1 ! e = arrs st ! e @ ext1"
      "\<forall>y\<in>set ext1. \<exists>x\<in>S. dependencies (objs st ! x) = e \<and> e < length (arrs st) \<and>
           hyphen_extension (property (objs st ! x)) (property (objs st ! y))"
      using assms(1) unfolding grown_def by blast
    obtain ext2 where e2: "arrs st2 ! e = arrs st1 ! e @ ext2"
      "\<forall>y\<in>set ext2. \<exists>x\<in>S. dependencies (objs st ! x) = e \<and> e < length (arrs st) \<and>
           hyphen_extension (property (objs st ! x)) (property (objs st ! y))"
      using assms(2) o l unfolding grown_def by metis
    have "arrs st2 ! e = arrs st ! e @ (ext1 @ ext2)" using e1 e2 by simp
    moreover have "\<forall>y\<in>set (ext1 @ ext2). \<exists>x\<in>S. dependencies (objs st ! x) = e \<and> e < length (arrs st) \<and>
           hyphen_extension (property (objs st ! x)) (property (objs st ! y))"
      using e1 e2 by auto
    ultimately show ?thesis by blast
  qed
  with o l show ?thesis by (simp add: grown_def)
qed

lemma grown_push_dep:
  assumes "prev \<in> S" "hyphen_extension (property (objs st ! prev)) (property (objs st ! cur))"
  shows "grown S st (push_dep st (dependencies (objs st ! prev)) cur)"
proof -
  let ?d = "dependencies (objs st ! prev)"
  have "\<exists>ext. arrs (push_dep st ?d cur) ! e = arrs st ! e @ ext \<and>
        (\<forall>y\<in>set ext. \<exists>x\<in>S. dependencies (objs st ! x) = e \<and> e < length (arrs st) \<and>
           hyphen_extension (property (objs st ! x)) (property (objs st ! y)))" for e
  proof (cases "e = ?d \<and> ?d < length (arrs st)")
    case True
    then have "arrs (push_dep st ?d cur) ! e = arrs st ! e @ [cur]"
      by (simp add: arrs_push_dep_nth)
    moreover have "\<forall>y\<in>set [cur]. \<exists>x\<in>S. dependencies (objs st ! x) = e \<and> e < length (arrs st) \<and>
           hyphen_extension (property (objs st ! x)) (property (objs st ! y))"
      using True assms by auto
    ultimately show ?thesis by blast
  next
    case False
    then have "arrs (push_dep st ?d cur) ! e = arrs st ! e @ []"
      by (auto simp add: arrs_push_dep_nth)
    then show ?thesis by force
  qed
  then show ?thesis by (simp add: grown_def objs_push_dep length_arrs_push_dep)
qed

lemma nest_step_grown:
  assumes "nest_step cur (st, stack) = (st', stack')" "set stack \<subseteq> S"
  shows "grown S st st' \<and> set stack' \<subseteq> insert cur S"
  using nest_step_cases [OF assms(1)]
proof
  assume "st' = st \<and> stack' = [cur] \<and>
          (\<forall>s\<in>set stack. \<not> hyphen_extension (property (objs st ! s)) (property (objs st ! cur)))"
  then show ?thesis by (simp add: grown_refl)
next
  assume "\<exists>pre prev post. stack = pre @ prev # post \<and>
            (\<forall>s\<in>set post. \<not> hyphen_extension (property (objs st ! s)) (property (objs st ! cur))) \<and>
            hyphen_extension (property (objs st ! prev)) (property (objs st ! cur)) \<and>
            st' = push_dep st (dependencies (objs st ! prev)) cur \<and>
            stack' = pre @ [prev, cur]"
  then obtain pre prev post where h: "stack = pre @ prev # post"
            "hyphen_extension (property (objs st ! prev)) (property (objs st ! cur))"
            "st' = push_dep st (dependencies (objs st ! prev)) cur"
            "stack' = pre @ [prev, cur]" by blast
  have "prev \<in> S" using h(1) assms(2) by auto
  from grown_push_dep [OF this h(2)] h assms(2) show ?thesis by auto
qed

lemma fold_nest_step_grown:
  assumes "fold nest_step ps (st, stack) = (st', stack')" "set stack \<subseteq> S" "set ps \<subseteq> S"
  shows "grown S st st' \<and> set stack' \<subseteq> S"
  using assms
proof (induction ps arbitrary: st stack)
  case Nil
  then show ?case by (simp add: grown_refl)
next
  case (Cons cur ps)
  obtain st1 stack1 where s: "nest_step cur (st, stack) = (st1, stack1)" by fastforce
  from nest_step_grown [OF s Cons.prems(2)] Cons.prems(3)
  have g1: "grown S st st1" and sub: "set stack1 \<subseteq> S" by auto
  from Cons.prems(1) s have "fold nest_step ps (st1, stack1) = (st', stack')" by simp
  from Cons.IH [OF this sub] Cons.prems(3) have "grown S st1 st'" "set stack' \<subseteq> S" by auto
  with g1 show ?case using grown_trans by blast
qed

subsection \<open>The whole of \<^verbatim>\<open>nest\<close>\<close>

lemma nest_unfold:
  assumes "nest st a = (st', a')"
  shows "a' = a \<and> (\<exists>stack. fold nest_step
            (filter (\<lambda>r. isProperty (objs st ! r))
               (arrs (st\<lparr>arrs := (arrs st)[a := sort_key (\<lambda>r. key (objs st ! r)) (arrs st ! a)]\<rparr>) ! a))
            (st\<lparr>arrs := (arrs st)[a := sort_key (\<lambda>r. key (objs st ! r)) (arrs st ! a)]\<rparr>, [])
          = (st', stack))"
  using assms unfolding nest_def js_sort_sort_key Let_def
  by (auto split: prod.splits)

lemma sorted_array_set:
  "set (xss[a := sort_key f (xss ! a)] ! a) = set (xss ! a)"
proof (cases "a < length xss")
  case True
  then show ?thesis by simp
next
  case False
  then have "xss[a := sort_key f (xss ! a)] = xss"
    by (intro list_update_beyond) simp
  then show ?thesis by simp
qed

lemma sorted_array_count:
  "count_list (xss[a := sort_key f (xss ! a)] ! e) y = count_list (xss ! e) y"
proof (cases "e = a \<and> a < length xss")
  case True
  have "count (mset (sort_key f (xss ! a))) y = count (mset (xss ! a)) y" by simp
  then have "count_list (sort_key f (xss ! a)) y = count_list (xss ! a) y"
    by (simp only: count_mset)
  with True show ?thesis by simp
next
  case False
  show ?thesis
  proof (cases "a < length xss")
    case True
    with False show ?thesis by (simp add: nth_list_update)
  next
    case False
    then have "xss[a := sort_key f (xss ! a)] = xss"
      by (intro list_update_beyond) simp
    then show ?thesis by simp
  qed
qed

lemma nest_grown:
  assumes "nest st a = (st', a')"
  shows "grown {r \<in> set (arrs st ! a). isProperty (objs st ! r)}
           (st\<lparr>arrs := (arrs st)[a := sort_key (\<lambda>r. key (objs st ! r)) (arrs st ! a)]\<rparr>) st'"
proof -
  let ?st1 = "st\<lparr>arrs := (arrs st)[a := sort_key (\<lambda>r. key (objs st ! r)) (arrs st ! a)]\<rparr>"
  let ?props = "filter (\<lambda>r. isProperty (objs st ! r)) (arrs ?st1 ! a)"
  from nest_unfold [OF assms] obtain stack where f: "fold nest_step ?props (?st1, []) = (st', stack)"
    by blast
  have "set ?props = {r \<in> set (arrs st ! a). isProperty (objs st ! r)}"
    using sorted_array_set [of "arrs st" a "\<lambda>r. key (objs st ! r)"] by auto
  with fold_nest_step_grown [OF f, of "set ?props"] show ?thesis by simp
qed

lemma nest_sorted_array:
  assumes n: "nest st a = (st', a')" and a: "a < length (arrs st)"
    and un: "\<forall>x\<in>set (arrs st ! a). isProperty (objs st ! x) \<longrightarrow> dependencies (objs st ! x) \<noteq> a"
  shows "arrs st' ! a = sort_key (\<lambda>r. key (objs st ! r)) (arrs st ! a)" and "objs st' = objs st"
    and "a' = a"
proof -
  let ?st1 = "st\<lparr>arrs := (arrs st)[a := sort_key (\<lambda>r. key (objs st ! r)) (arrs st ! a)]\<rparr>"
  let ?S = "{r \<in> set (arrs st ! a). isProperty (objs st ! r)}"
  have g: "grown ?S ?st1 st'" by (rule nest_grown [OF n])
  then show "objs st' = objs st" by (simp add: grown_def)
  show "a' = a" using nest_unfold [OF n] by simp
  from g obtain ext where e: "arrs st' ! a = arrs ?st1 ! a @ ext"
    "\<forall>y\<in>set ext. \<exists>x\<in>?S. dependencies (objs ?st1 ! x) = a \<and> a < length (arrs ?st1) \<and>
           hyphen_extension (property (objs ?st1 ! x)) (property (objs ?st1 ! y))"
    unfolding grown_def by blast
  have "ext = []"
  proof (rule ccontr)
    assume "ext \<noteq> []"
    then obtain y where "y \<in> set ext" by (cases ext) auto
    with e(2) obtain x where "x \<in> ?S" "dependencies (objs ?st1 ! x) = a" by blast
    with un show False by auto
  qed
  with e(1) a show "arrs st' ! a = sort_key (\<lambda>r. key (objs st ! r)) (arrs st ! a)" by simp
qed

lemma nest_store_background:
  "nest store_background 0 = (store_background\<lparr>arrs := [[3, 4, 1, 0, 2], [], [], [4], [1]]\<rparr>, 0)"
  by (simp add: store_background_def nest_def js_sort_def snippetsSort_def js_def nest_step_def
      nest_while.simps push_dep_def startsWith_def charCodeAt_def)

lemma nest_store_border:
  "nest store_border 0 = (store_border\<lparr>arrs := [[2, 1, 0], [], [], [1]]\<rparr>, 0)"
  by (simp add: store_border_def nest_def js_sort_def snippetsSort_def js_def nest_step_def
      nest_while.simps push_dep_def startsWith_def charCodeAt_def)

lemma nest_store_self:
  "nest store_self 0 = (store_self\<lparr>arrs := [[2, 1, 0, 1], [], []]\<rparr>, 0)"
  by (simp add: store_self_def nest_def js_sort_def snippetsSort_def js_def nest_step_def
      nest_while.simps push_dep_def startsWith_def charCodeAt_def)

lemma nest_store_shared:
  "nest store_shared 0 = (store_shared\<lparr>arrs := [[0, 1, 2], [2], []]\<rparr>, 0)"
  by (simp add: store_shared_def nest_def js_sort_def snippetsSort_def js_def nest_step_def
      nest_while.simps push_dep_def startsWith_def charCodeAt_def)


lemma nest_sorted_prefix:
  assumes n: "nest st a = (st', a')" and a: "a < length (arrs st)"
  shows "\<exists>more. arrs st' ! a = sort_key (\<lambda>r. key (objs st ! r)) (arrs st ! a) @ more"
proof -
  let ?st1 = "st\<lparr>arrs := (arrs st)[a := sort_key (\<lambda>r. key (objs st ! r)) (arrs st ! a)]\<rparr>"
  have "grown {r \<in> set (arrs st ! a). isProperty (objs st ! r)} ?st1 st'"
    by (rule nest_grown [OF n])
  then obtain more where "arrs st' ! a = arrs ?st1 ! a @ more"
    unfolding grown_def by blast
  with a show ?thesis by simp
qed


subsection \<open>The order of shorthands and longhands\<close>





subsection \<open>The array is sorted in place\<close>

text \<open>
  C10, as stated for every input array. In \<open>store_self\<close> the array handed to
  \<^verbatim>\<open>nest\<close> is also the \<^verbatim>\<open>dependencies\<close> array of its element \<^verbatim>\<open>a\<close>. The sort
  orders it to \<^verbatim>\<open>a\<close>, \<^verbatim>\<open>a-b\<close>, \<^verbatim>\<open>b\<close>; the loop then pushes \<^verbatim>\<open>a-b\<close> onto the
  dependencies of \<^verbatim>\<open>a\<close>, which is this array, and the caller's array ends as
  \<^verbatim>\<open>a\<close>, \<^verbatim>\<open>a-b\<close>, \<^verbatim>\<open>b\<close>, \<^verbatim>\<open>a-b\<close>: not ordered by key.
\<close>

theorem nest_sorts_in_place_counterexample:
  "nest store_self 0 = (store_self\<lparr>arrs := [[2, 1, 0, 1], [], []]\<rparr>, 0)
   \<and> arrs store_self ! 0 = [0, 1, 2]
   \<and> arrs (store_self\<lparr>arrs := [[2, 1, 0, 1], [], []]\<rparr>) ! 0 = [2, 1, 0, 1]
   \<and> map (\<lambda>r. key (objs store_self ! r)) [2, 1, 0, 1] = [js ''a'', js ''a-b'', js ''b'', js ''a-b'']
   \<and> \<not> sorted (map (\<lambda>r. key (objs (store_self\<lparr>arrs := [[2, 1, 0, 1], [], []]\<rparr>) ! r))
          (arrs (store_self\<lparr>arrs := [[2, 1, 0, 1], [], []]\<rparr>) ! 0))"
proof -
  have "arrs store_self ! 0 = [0, 1, 2]"
    "arrs (store_self\<lparr>arrs := [[2, 1, 0, 1], [], []]\<rparr>) ! 0 = [2, 1, 0, 1]"
    "map (\<lambda>r. key (objs store_self ! r)) [2, 1, 0, 1] = [js ''a'', js ''a-b'', js ''b'', js ''a-b'']"
    by (simp_all add: store_self_def)
  moreover have "\<not> sorted (map (\<lambda>r. key (objs (store_self\<lparr>arrs := [[2, 1, 0, 1], [], []]\<rparr>) ! r))
          (arrs (store_self\<lparr>arrs := [[2, 1, 0, 1], [], []]\<rparr>) ! 0))"
    by (simp add: store_self_def js_def)
  ultimately show ?thesis using nest_store_self by simp
qed

text \<open>
  C10, amended. \<^verbatim>\<open>nest\<close> returns the address of the array it was given, and after
  the call the array at that address begins with its former elements in the order of
  the sort (by \<^verbatim>\<open>snippetsSort\<close>, equal keys in their former order). When the array is
  not at the same time the \<^verbatim>\<open>dependencies\<close> array of a Property snippet it contains,
  it holds these elements and no others: the caller's array is ordered by key, and it
  differs from what it was whenever it was not ordered by key before.
\<close>

theorem nest_sorts_in_place:
  assumes "nest st a = (st', a')" and "a < length (arrs st)"
  shows "a' = a
     \<and> take (length (arrs st ! a)) (arrs st' ! a)
         = js_sort (\<lambda>x y. snippetsSort (objs st ! x) (objs st ! y)) (arrs st ! a)
     \<and> ((\<forall>x\<in>set (arrs st ! a). isProperty (objs st ! x) \<longrightarrow> dependencies (objs st ! x) \<noteq> a) \<longrightarrow>
          arrs st' ! a = js_sort (\<lambda>x y. snippetsSort (objs st ! x) (objs st ! y)) (arrs st ! a)
          \<and> sorted (map (\<lambda>r. key (objs st' ! r)) (arrs st' ! a))
          \<and> (\<not> sorted (map (\<lambda>r. key (objs st ! r)) (arrs st ! a)) \<longrightarrow>
                arrs st' ! a \<noteq> arrs st ! a))"
proof -
  from nest_sorted_prefix [OF assms] obtain more
    where "arrs st' ! a = sort_key (\<lambda>r. key (objs st ! r)) (arrs st ! a) @ more" by blast
  then have pre: "take (length (arrs st ! a)) (arrs st' ! a)
         = js_sort (\<lambda>x y. snippetsSort (objs st ! x) (objs st ! y)) (arrs st ! a)"
    by (simp add: js_sort_sort_key)
  have same: "a' = a" using nest_unfold [OF assms(1)] by simp
  have "arrs st' ! a = js_sort (\<lambda>x y. snippetsSort (objs st ! x) (objs st ! y)) (arrs st ! a)
          \<and> sorted (map (\<lambda>r. key (objs st' ! r)) (arrs st' ! a))
          \<and> (\<not> sorted (map (\<lambda>r. key (objs st ! r)) (arrs st ! a)) \<longrightarrow>
                arrs st' ! a \<noteq> arrs st ! a)"
    if un: "\<forall>x\<in>set (arrs st ! a). isProperty (objs st ! x) \<longrightarrow> dependencies (objs st ! x) \<noteq> a"
  proof -
    note r = nest_sorted_array [OF assms un]
    have s: "sorted (map (\<lambda>r. key (objs st ! r)) (arrs st' ! a))"
      unfolding r(1) by simp
    then have "\<not> sorted (map (\<lambda>r. key (objs st ! r)) (arrs st ! a)) \<longrightarrow>
        arrs st' ! a \<noteq> arrs st ! a"
      by metis
    with s r show ?thesis by (simp add: js_sort_sort_key)
  qed
  with same pre show ?thesis by blast
qed

theorem nest_sorts_in_place_witness:
  "nest store_background 0 = (store_background\<lparr>arrs := [[3, 4, 1, 0, 2], [], [], [4], [1]]\<rparr>, 0)
   \<and> 0 < length (arrs store_background)
   \<and> list_all (\<lambda>x. isProperty (objs store_background ! x) \<longrightarrow>
         dependencies (objs store_background ! x) \<noteq> 0) (arrs store_background ! 0)
   \<and> \<not> sorted (map (\<lambda>r. key (objs store_background ! r)) (arrs store_background ! 0))
   \<and> arrs (store_background\<lparr>arrs := [[3, 4, 1, 0, 2], [], [], [4], [1]]\<rparr>) ! 0
       = js_sort (\<lambda>x y. snippetsSort (objs store_background ! x) (objs store_background ! y))
           (arrs store_background ! 0)
   \<and> arrs (store_background\<lparr>arrs := [[3, 4, 1, 0, 2], [], [], [4], [1]]\<rparr>) ! 0
       \<noteq> arrs store_background ! 0"
proof -
  have h1: "0 < length (arrs store_background)" by (simp add: store_background_def)
  have h2: "\<forall>x\<in>set (arrs store_background ! 0). isProperty (objs store_background ! x) \<longrightarrow>
         dependencies (objs store_background ! x) \<noteq> 0"
    by (simp add: store_background_def)
  have h3: "\<not> sorted (map (\<lambda>r. key (objs store_background ! r)) (arrs store_background ! 0))"
    by (simp add: store_background_def js_def)
  from nest_sorts_in_place [OF nest_store_background h1] h2 h3
  have "arrs (store_background\<lparr>arrs := [[3, 4, 1, 0, 2], [], [], [4], [1]]\<rparr>) ! 0
       = js_sort (\<lambda>x y. snippetsSort (objs store_background ! x) (objs store_background ! y))
           (arrs store_background ! 0)
   \<and> arrs (store_background\<lparr>arrs := [[3, 4, 1, 0, 2], [], [], [4], [1]]\<rparr>) ! 0
       \<noteq> arrs store_background ! 0" by blast
  with nest_store_background h1 h2 h3 show ?thesis unfolding list_all_iff by blast
qed

subsection \<open>The snippets are kept\<close>

text \<open>
  C5, as stated for every input list. For the array of \<open>store_self\<close>, which is the
  \<^verbatim>\<open>dependencies\<close> array of its own element \<^verbatim>\<open>a\<close>, \<^verbatim>\<open>nest\<close> returns four
  elements for an input of three: the snippet \<^verbatim>\<open>a-b\<close> occurs twice.
\<close>

theorem nest_preserves_multiset_counterexample:
  "nest store_self 0 = (store_self\<lparr>arrs := [[2, 1, 0, 1], [], []]\<rparr>, 0)
   \<and> length (arrs store_self ! 0) = 3
   \<and> length (arrs (store_self\<lparr>arrs := [[2, 1, 0, 1], [], []]\<rparr>) ! 0) = 4
   \<and> count (mset (arrs store_self ! 0)) 1 = 1
   \<and> count (mset (arrs (store_self\<lparr>arrs := [[2, 1, 0, 1], [], []]\<rparr>) ! 0)) 1 = 2"
proof -
  have "length (arrs store_self ! 0) = 3"
    "length (arrs (store_self\<lparr>arrs := [[2, 1, 0, 1], [], []]\<rparr>) ! 0) = 4"
    "count (mset (arrs store_self ! 0)) 1 = 1"
    "count (mset (arrs (store_self\<lparr>arrs := [[2, 1, 0, 1], [], []]\<rparr>) ! 0)) 1 = 2"
    by (simp_all add: store_self_def)
  then show ?thesis using nest_store_self by simp
qed

text \<open>
  C5, amended. For an input array that is not at the same time the
  \<^verbatim>\<open>dependencies\<close> array of a Property snippet it contains, the array that
  \<^verbatim>\<open>nest\<close> returns has the length of the input and the same snippets with the same
  multiplicities (none dropped, none duplicated), and it is the input sorted by key.
  For every input array, no snippet object is changed, so every Raw snippet is as it
  was, and the returned array begins with the input sorted by key: no snippet is
  dropped.
\<close>

theorem nest_preserves_multiset:
  assumes "nest st a = (st', a')" and "a < length (arrs st)"
  shows "objs st' = objs st
     \<and> take (length (arrs st ! a)) (arrs st' ! a')
         = sort_key (\<lambda>r. key (objs st ! r)) (arrs st ! a)
     \<and> ((\<forall>x\<in>set (arrs st ! a). isProperty (objs st ! x) \<longrightarrow> dependencies (objs st ! x) \<noteq> a) \<longrightarrow>
          length (arrs st' ! a') = length (arrs st ! a)
          \<and> mset (arrs st' ! a') = mset (arrs st ! a)
          \<and> arrs st' ! a' = sort_key (\<lambda>r. key (objs st ! r)) (arrs st ! a))"
proof -
  have same: "a' = a" using nest_unfold [OF assms(1)] by simp
  have "grown {r \<in> set (arrs st ! a). isProperty (objs st ! r)}
      (st\<lparr>arrs := (arrs st)[a := sort_key (\<lambda>r. key (objs st ! r)) (arrs st ! a)]\<rparr>) st'"
    by (rule nest_grown [OF assms(1)])
  then have o: "objs st' = objs st" by (simp add: grown_def)
  from nest_sorted_prefix [OF assms] obtain more
    where "arrs st' ! a = sort_key (\<lambda>r. key (objs st ! r)) (arrs st ! a) @ more" by blast
  then have pre: "take (length (arrs st ! a)) (arrs st' ! a)
         = sort_key (\<lambda>r. key (objs st ! r)) (arrs st ! a)"
    by simp
  have "length (arrs st' ! a) = length (arrs st ! a)
          \<and> mset (arrs st' ! a) = mset (arrs st ! a)
          \<and> arrs st' ! a = sort_key (\<lambda>r. key (objs st ! r)) (arrs st ! a)"
    if un: "\<forall>x\<in>set (arrs st ! a). isProperty (objs st ! x) \<longrightarrow> dependencies (objs st ! x) \<noteq> a"
  proof -
    note r = nest_sorted_array [OF assms un]
    show ?thesis unfolding r(1) by simp
  qed
  with same o pre show ?thesis by blast
qed

theorem nest_preserves_multiset_witness:
  "nest store_background 0 = (store_background\<lparr>arrs := [[3, 4, 1, 0, 2], [], [], [4], [1]]\<rparr>, 0)
   \<and> 0 < length (arrs store_background)
   \<and> list_all (\<lambda>x. isProperty (objs store_background ! x) \<longrightarrow>
         dependencies (objs store_background ! x) \<noteq> 0) (arrs store_background ! 0)
   \<and> length (arrs (store_background\<lparr>arrs := [[3, 4, 1, 0, 2], [], [], [4], [1]]\<rparr>) ! 0) = 5
   \<and> mset (arrs (store_background\<lparr>arrs := [[3, 4, 1, 0, 2], [], [], [4], [1]]\<rparr>) ! 0)
       = mset [0, 1, 2, 3, 4]
   \<and> objs (store_background\<lparr>arrs := [[3, 4, 1, 0, 2], [], [], [4], [1]]\<rparr>) ! 2
       = Raw (js ''bz'') (js ''some text'')"
proof -
  have h1: "0 < length (arrs store_background)" by (simp add: store_background_def)
  have h2: "\<forall>x\<in>set (arrs store_background ! 0). isProperty (objs store_background ! x) \<longrightarrow>
         dependencies (objs store_background ! x) \<noteq> 0"
    by (simp add: store_background_def)
  have e: "arrs store_background ! 0 = [0, 1, 2, 3, 4]"
    "objs store_background ! 2 = Raw (js ''bz'') (js ''some text'')"
    by (simp_all add: store_background_def)
  from nest_preserves_multiset [OF nest_store_background h1] h2
  have "objs (store_background\<lparr>arrs := [[3, 4, 1, 0, 2], [], [], [4], [1]]\<rparr>) = objs store_background
     \<and> length (arrs (store_background\<lparr>arrs := [[3, 4, 1, 0, 2], [], [], [4], [1]]\<rparr>) ! 0)
         = length (arrs store_background ! 0)
     \<and> mset (arrs (store_background\<lparr>arrs := [[3, 4, 1, 0, 2], [], [], [4], [1]]\<rparr>) ! 0)
         = mset (arrs store_background ! 0)" by blast
  with e have "length (arrs (store_background\<lparr>arrs := [[3, 4, 1, 0, 2], [], [], [4], [1]]\<rparr>) ! 0) = 5
   \<and> mset (arrs (store_background\<lparr>arrs := [[3, 4, 1, 0, 2], [], [], [4], [1]]\<rparr>) ! 0)
       = mset [0, 1, 2, 3, 4]
   \<and> objs (store_background\<lparr>arrs := [[3, 4, 1, 0, 2], [], [], [4], [1]]\<rparr>) ! 2
       = Raw (js ''bz'') (js ''some text'')" by simp
  with nest_store_background h1 h2 show ?thesis unfolding list_all_iff by blast
qed

subsection \<open>Only longhands are linked\<close>

text \<open>
  C7, as stated for any two Property snippets. In \<open>store_shared\<close> the snippets
  \<^verbatim>\<open>border\<close> and \<^verbatim>\<open>borderx\<close> have the same \<^verbatim>\<open>dependencies\<close> array. \<^verbatim>\<open>nest\<close>
  pushes \<^verbatim>\<open>borderx-a\<close> onto the dependencies of \<^verbatim>\<open>borderx\<close>, and so
  \<^verbatim>\<open>borderx-a\<close> becomes a dependency of \<^verbatim>\<open>border\<close> as well, although the two names
  share the prefix \<^verbatim>\<open>border\<close> with no hyphen after it.
\<close>

theorem nest_links_longhands_only_counterexample:
  "nest store_shared 0 = (store_shared\<lparr>arrs := [[0, 1, 2], [2], []]\<rparr>, 0)
   \<and> isProperty (objs store_shared ! 0) \<and> isProperty (objs store_shared ! 2)
   \<and> property (objs store_shared ! 0) = js ''border''
   \<and> property (objs store_shared ! 2) = js ''borderx-a''
   \<and> \<not> hyphen_extension (js ''border'') (js ''borderx-a'')
   \<and> \<not> hyphen_extension (js ''borderx-a'') (js ''border'')
   \<and> 2 \<notin> set (arrs store_shared ! dependencies (objs store_shared ! 0))
   \<and> 2 \<in> set (arrs (store_shared\<lparr>arrs := [[0, 1, 2], [2], []]\<rparr>)
               ! dependencies (objs (store_shared\<lparr>arrs := [[0, 1, 2], [2], []]\<rparr>) ! 0))"
proof -
  have "\<not> hyphen_extension (js ''border'') (js ''borderx-a'')"
    "\<not> hyphen_extension (js ''borderx-a'') (js ''border'')"
    by (simp_all add: hyphen_extension_code startsWith_def charCodeAt_def js_def)
  moreover have "isProperty (objs store_shared ! 0)" "isProperty (objs store_shared ! 2)"
    "property (objs store_shared ! 0) = js ''border''"
    "property (objs store_shared ! 2) = js ''borderx-a''"
    "2 \<notin> set (arrs store_shared ! dependencies (objs store_shared ! 0))"
    "2 \<in> set (arrs (store_shared\<lparr>arrs := [[0, 1, 2], [2], []]\<rparr>)
               ! dependencies (objs (store_shared\<lparr>arrs := [[0, 1, 2], [2], []]\<rparr>) ! 0))"
    by (simp_all add: store_shared_def)
  ultimately show ?thesis using nest_store_shared by simp
qed

text \<open>
  C7, amended. Let \<open>x\<close> and \<open>y\<close> be Property snippets such that neither property name is
  the other followed by a hyphen and more (as \<^verbatim>\<open>border\<close> and \<^verbatim>\<open>borderx\<close>, which
  share a prefix with no hyphen at the boundary), each the only Property snippet of the
  input with its \<^verbatim>\<open>dependencies\<close> array. Then \<^verbatim>\<open>nest\<close> links neither as a
  dependency of the other: \<open>y\<close> occurs in the dependencies of \<open>x\<close> as often after the
  call as before, and likewise \<open>x\<close> in those of \<open>y\<close>.
\<close>

theorem nest_links_longhands_only:
  assumes n: "nest st a = (st', a')"
    and px: "isProperty (objs st ! x)" and py: "isProperty (objs st ! y)"
    and ownx: "\<forall>z\<in>set (arrs st ! a). isProperty (objs st ! z) \<and>
                 dependencies (objs st ! z) = dependencies (objs st ! x) \<longrightarrow> z = x"
    and owny: "\<forall>z\<in>set (arrs st ! a). isProperty (objs st ! z) \<and>
                 dependencies (objs st ! z) = dependencies (objs st ! y) \<longrightarrow> z = y"
    and nxy: "\<not> hyphen_extension (property (objs st ! x)) (property (objs st ! y))"
    and nyx: "\<not> hyphen_extension (property (objs st ! y)) (property (objs st ! x))"
  shows "count_list (arrs st' ! dependencies (objs st' ! x)) y
           = count_list (arrs st ! dependencies (objs st ! x)) y
     \<and> count_list (arrs st' ! dependencies (objs st' ! y)) x
           = count_list (arrs st ! dependencies (objs st ! y)) x"
proof -
  let ?st1 = "st\<lparr>arrs := (arrs st)[a := sort_key (\<lambda>r. key (objs st ! r)) (arrs st ! a)]\<rparr>"
  let ?S = "{r \<in> set (arrs st ! a). isProperty (objs st ! r)}"
  have g: "grown ?S ?st1 st'" by (rule nest_grown [OF n])
  then have o: "objs st' = objs st" by (simp add: grown_def)
  have one: "count_list (arrs st' ! dependencies (objs st ! u)) v
           = count_list (arrs st ! dependencies (objs st ! u)) v"
    if own: "\<forall>z\<in>set (arrs st ! a). isProperty (objs st ! z) \<and>
                 dependencies (objs st ! z) = dependencies (objs st ! u) \<longrightarrow> z = u"
      and nuv: "\<not> hyphen_extension (property (objs st ! u)) (property (objs st ! v))" for u v
  proof -
    let ?d = "dependencies (objs st ! u)"
    from g obtain ext where e: "arrs st' ! ?d = arrs ?st1 ! ?d @ ext"
      "\<forall>w\<in>set ext. \<exists>z\<in>?S. dependencies (objs ?st1 ! z) = ?d \<and> ?d < length (arrs ?st1) \<and>
           hyphen_extension (property (objs ?st1 ! z)) (property (objs ?st1 ! w))"
      unfolding grown_def by blast
    have "v \<notin> set ext"
    proof
      assume "v \<in> set ext"
      with e(2) obtain z where z: "z \<in> ?S" "dependencies (objs st ! z) = ?d"
        "hyphen_extension (property (objs st ! z)) (property (objs st ! v))" by auto
      with own have "z = u" by auto
      with z(3) nuv show False by simp
    qed
    then have "count_list ext v = 0" by (simp add: count_list_0_iff)
    with e(1) show ?thesis by (simp add: sorted_array_count)
  qed
  from one [OF ownx nxy] one [OF owny nyx] o show ?thesis by simp
qed

theorem nest_links_longhands_only_witness:
  "nest store_border 0 = (store_border\<lparr>arrs := [[2, 1, 0], [], [], [1]]\<rparr>, 0)
   \<and> isProperty (objs store_border ! 2) \<and> isProperty (objs store_border ! 0)
   \<and> property (objs store_border ! 2) = js ''border''
   \<and> property (objs store_border ! 0) = js ''borderx''
   \<and> list_all (\<lambda>z. isProperty (objs store_border ! z) \<and>
          dependencies (objs store_border ! z) = dependencies (objs store_border ! 2) \<longrightarrow> z = 2)
         (arrs store_border ! 0)
   \<and> list_all (\<lambda>z. isProperty (objs store_border ! z) \<and>
          dependencies (objs store_border ! z) = dependencies (objs store_border ! 0) \<longrightarrow> z = 0)
         (arrs store_border ! 0)
   \<and> \<not> hyphen_extension (js ''border'') (js ''borderx'')
   \<and> \<not> hyphen_extension (js ''borderx'') (js ''border'')
   \<and> count_list (arrs (store_border\<lparr>arrs := [[2, 1, 0], [], [], [1]]\<rparr>) ! 3) 0 = 0
   \<and> count_list (arrs (store_border\<lparr>arrs := [[2, 1, 0], [], [], [1]]\<rparr>) ! 1) 2 = 0"
proof -
  have p: "isProperty (objs store_border ! 2)" "isProperty (objs store_border ! 0)"
    and q: "property (objs store_border ! 2) = js ''border''"
      "property (objs store_border ! 0) = js ''borderx''"
    and d: "dependencies (objs store_border ! 2) = 3" "dependencies (objs store_border ! 0) = 1"
    by (simp_all add: store_border_def)
  have own2: "\<forall>z\<in>set (arrs store_border ! 0). isProperty (objs store_border ! z) \<and>
          dependencies (objs store_border ! z) = dependencies (objs store_border ! 2) \<longrightarrow> z = 2"
    and own0: "\<forall>z\<in>set (arrs store_border ! 0). isProperty (objs store_border ! z) \<and>
          dependencies (objs store_border ! z) = dependencies (objs store_border ! 0) \<longrightarrow> z = 0"
    by (simp_all add: store_border_def)
  have n1: "\<not> hyphen_extension (js ''border'') (js ''borderx'')"
    and n2: "\<not> hyphen_extension (js ''borderx'') (js ''border'')"
    by (simp_all add: hyphen_extension_code startsWith_def charCodeAt_def js_def)
  have n1': "\<not> hyphen_extension (property (objs store_border ! 2)) (property (objs store_border ! 0))"
    and n2': "\<not> hyphen_extension (property (objs store_border ! 0)) (property (objs store_border ! 2))"
    using n1 n2 q by simp_all
  from nest_links_longhands_only [OF nest_store_border p own2 own0 n1' n2']
  have "count_list (arrs (store_border\<lparr>arrs := [[2, 1, 0], [], [], [1]]\<rparr>) ! 3) 0 = 0
   \<and> count_list (arrs (store_border\<lparr>arrs := [[2, 1, 0], [], [], [1]]\<rparr>) ! 1) 2 = 0"
    by (simp add: store_border_def)
  with nest_store_border p q own2 own0 n1 n2 show ?thesis unfolding list_all_iff by blast
qed

subsection \<open>The loop links every shorthand to its longhands\<close>

lemma dep_edges_push_dep_mono: "dep_edges st \<subseteq> dep_edges (push_dep st d c)"
  by (auto simp: dep_edges_def objs_push_dep length_arrs_push_dep arrs_push_dep_nth)

lemma dep_edges_push_dep_new:
  assumes "prev < length (objs st)" "isProperty (objs st ! prev)"
    "dependencies (objs st ! prev) < length (arrs st)"
  shows "(prev, cur) \<in> dep_edges (push_dep st (dependencies (objs st ! prev)) cur)"
  using assms
  by (simp add: dep_edges_def objs_push_dep length_arrs_push_dep arrs_push_dep_nth)

lemma nest_input_ok_push_dep:
  "nest_input_ok (push_dep st d c) ps = nest_input_ok st ps"
  by (simp add: nest_input_ok_def objs_push_dep length_arrs_push_dep)

lemma nest_step_inv:
  assumes step: "nest_step cur (st, stack) = (st', stack')"
    and ok: "nest_input_ok st (done @ cur # todo)"
    and inv: "nest_inv st done (cur # todo) stack"
  shows "nest_input_ok st' (done @ cur # todo) \<and> nest_inv st' (done @ [cur]) todo stack'"
proof -
  let ?P = "\<lambda>r. property (objs st ! r)"
  let ?E = "dep_edges st"
  from inv have I1: "set stack \<subseteq> set done"
    and I2: "sorted_wrt (\<lambda>x y. (x, y) \<in> ?E\<^sup>+) stack"
    and I3: "\<forall>x\<in>set done. \<forall>y\<in>set done. hyphen_extension (?P x) (?P y) \<longrightarrow> (x, y) \<in> ?E\<^sup>+"
    and I4: "\<forall>x\<in>set done. \<forall>y\<in>set (cur # todo). hyphen_extension (?P x) (?P y) \<longrightarrow> x \<in> set stack"
    unfolding nest_inv_def by blast+
  from ok have valid: "\<forall>r\<in>set (done @ cur # todo). r < length (objs st) \<and> isProperty (objs st ! r) \<and>
        dependencies (objs st ! r) < length (arrs st)"
    and chars: "\<forall>c\<in>set (?P cur). 45 \<le> c"
    and srt: "sorted_wrt (\<lambda>x y. ?P x < ?P y) (done @ cur # todo)"
    unfolding nest_input_ok_def by auto
  from srt have before: "\<forall>x\<in>set done. ?P x < ?P cur"
    and after: "\<forall>y\<in>set todo. ?P cur < ?P y"
    by (auto simp: sorted_wrt_append)
  text \<open>Nothing processed so far is a longhand of \<open>cur\<close>, and \<open>cur\<close> is no longhand of itself.\<close>
  have no_back: "\<not> hyphen_extension (?P cur) (?P y)" if "y \<in> set done \<or> y = cur" for y
  proof
    assume "hyphen_extension (?P cur) (?P y)"
    then have "?P cur < ?P y" by (rule hyphen_extension_less)
    with that before show False by auto
  qed
  text \<open>A processed snippet that has a longhand still to come and is not a shorthand of
    \<open>cur\<close> cannot exist: \<open>cur\<close> lies between the two in the order.\<close>
  have keep: "hyphen_extension (?P x) (?P cur)"
    if x: "x \<in> set done" and y: "y \<in> set todo" and e: "hyphen_extension (?P x) (?P y)" for x y
  proof -
    from e obtain rest where py: "?P y = ?P x @ 45 # rest"
      unfolding hyphen_extension_def by blast
    from x before have "?P x < ?P cur" by blast
    moreover from y after py have "?P cur < ?P x @ 45 # rest" by auto
    ultimately show ?thesis
      using between_extension [OF _ _ chars] unfolding hyphen_extension_def by blast
  qed
  from nest_step_cases [OF step] show ?thesis
  proof
    assume a: "st' = st \<and> stack' = [cur] \<and>
          (\<forall>s\<in>set stack. \<not> hyphen_extension (?P s) (?P cur))"
    have none: "\<not> hyphen_extension (?P x) (?P cur)" if "x \<in> set done" for x
    proof
      assume e: "hyphen_extension (?P x) (?P cur)"
      with I4 that have "x \<in> set stack" by simp
      with a e show False by blast
    qed
    have J3: "\<forall>x\<in>set (done @ [cur]). \<forall>y\<in>set (done @ [cur]).
        hyphen_extension (?P x) (?P y) \<longrightarrow> (x, y) \<in> ?E\<^sup>+"
      using I3 none no_back by auto
    have J4: "\<forall>x\<in>set (done @ [cur]). \<forall>y\<in>set todo.
        hyphen_extension (?P x) (?P y) \<longrightarrow> x \<in> set stack'"
      using a keep none by auto
    from a J3 J4 ok show ?thesis unfolding nest_inv_def by simp
  next
    assume "\<exists>pre prev post. stack = pre @ prev # post \<and>
            (\<forall>s\<in>set post. \<not> hyphen_extension (?P s) (?P cur)) \<and>
            hyphen_extension (?P prev) (?P cur) \<and>
            st' = push_dep st (dependencies (objs st ! prev)) cur \<and>
            stack' = pre @ [prev, cur]"
    then obtain pre prev post where stack: "stack = pre @ prev # post"
      and fail: "\<forall>s\<in>set post. \<not> hyphen_extension (?P s) (?P cur)"
      and st': "st' = push_dep st (dependencies (objs st ! prev)) cur"
      and stack': "stack' = pre @ [prev, cur]" by blast
    let ?E' = "dep_edges st'"
    have o: "objs st' = objs st" by (simp add: st' objs_push_dep)
    have "prev \<in> set done" using stack I1 by auto
    with valid have "prev < length (objs st)" "isProperty (objs st ! prev)"
      "dependencies (objs st ! prev) < length (arrs st)" by auto
    then have edge: "(prev, cur) \<in> ?E'" unfolding st' by (rule dep_edges_push_dep_new)
    have mono: "?E\<^sup>+ \<subseteq> ?E'\<^sup>+"
      unfolding st' by (intro trancl_mono_subset dep_edges_push_dep_mono)
    have to_cur: "(s, cur) \<in> ?E'\<^sup>+" if "s \<in> set (pre @ [prev])" for s
    proof (cases "s = prev")
      case True
      with edge show ?thesis by blast
    next
      case False
      with that have "s \<in> set pre" by simp
      with I2 stack have "(s, prev) \<in> ?E\<^sup>+" by (simp add: sorted_wrt_append)
      with mono have "(s, prev) \<in> ?E'\<^sup>+" by blast
      then show ?thesis using edge by (rule trancl_into_trancl)
    qed
    have J1: "set stack' \<subseteq> set (done @ [cur])" using stack stack' I1 by auto
    have "sorted_wrt (\<lambda>x y. (x, y) \<in> ?E\<^sup>+) (pre @ [prev])"
      using I2 stack by (simp add: sorted_wrt_append)
    then have "sorted_wrt (\<lambda>x y. (x, y) \<in> ?E'\<^sup>+) (pre @ [prev])"
      using mono by (auto intro: sorted_wrt_mono_rel [rotated])
    with to_cur have J2: "sorted_wrt (\<lambda>x y. (x, y) \<in> ?E'\<^sup>+) stack'"
      unfolding stack' by (simp add: sorted_wrt_append)
    have in_stack: "x \<in> set (pre @ [prev])"
      if "x \<in> set done" "hyphen_extension (?P x) (?P cur)" for x
    proof -
      from I4 that have "x \<in> set stack" by simp
      with fail that(2) stack show ?thesis by auto
    qed
    have J3: "\<forall>x\<in>set (done @ [cur]). \<forall>y\<in>set (done @ [cur]).
        hyphen_extension (?P x) (?P y) \<longrightarrow> (x, y) \<in> ?E'\<^sup>+"
    proof (intro ballI impI)
      fix x y assume x: "x \<in> set (done @ [cur])" and y: "y \<in> set (done @ [cur])"
        and e: "hyphen_extension (?P x) (?P y)"
      show "(x, y) \<in> ?E'\<^sup>+"
      proof (cases "x = cur \<or> (x \<in> set done \<and> y \<in> set done)")
        case True
        with e no_back y I3 mono show ?thesis by auto
      next
        case False
        with x y have "x \<in> set done" "y = cur" by auto
        with e to_cur in_stack show ?thesis by blast
      qed
    qed
    have J4: "\<forall>x\<in>set (done @ [cur]). \<forall>y\<in>set todo.
        hyphen_extension (?P x) (?P y) \<longrightarrow> x \<in> set stack'"
    proof (intro ballI impI)
      fix x y assume x: "x \<in> set (done @ [cur])" and y: "y \<in> set todo"
        and e: "hyphen_extension (?P x) (?P y)"
      show "x \<in> set stack'"
      proof (cases "x = cur")
        case True
        then show ?thesis by (simp add: stack')
      next
        case False
        with x have xd: "x \<in> set done" by simp
        from keep [OF xd y e] in_stack [OF xd] show ?thesis by (auto simp: stack')
      qed
    qed
    from J1 J2 J3 J4 o ok show ?thesis
      unfolding nest_inv_def st' nest_input_ok_push_dep by (simp add: objs_push_dep)
  qed
qed

lemma fold_nest_step_inv:
  assumes "fold nest_step todo (st, stack) = (st', stack')"
    and "nest_input_ok st (done @ todo)"
    and "nest_inv st done todo stack"
  shows "nest_inv st' (done @ todo) [] stack'"
  using assms
proof (induction todo arbitrary: st stack "done")
  case Nil
  then show ?case by simp
next
  case (Cons cur todo)
  obtain st1 stack1 where s: "nest_step cur (st, stack) = (st1, stack1)" by fastforce
  from nest_step_inv [OF s Cons.prems(2,3)]
  have ok1: "nest_input_ok st1 ((done @ [cur]) @ todo)"
    and inv1: "nest_inv st1 (done @ [cur]) todo stack1" by simp_all
  from Cons.prems(1) s have "fold nest_step todo (st1, stack1) = (st', stack')" by simp
  from Cons.IH [OF this ok1 inv1] show ?case by simp
qed

lemma sorted_position:
  assumes "sorted (map f xs)" "x \<in> set xs" "y \<in> set xs" "f x < f y"
  shows "\<exists>i j. i < j \<and> j < length xs \<and> xs ! i = x \<and> xs ! j = y"
proof -
  from assms(2,3) obtain i j where i: "i < length xs" "xs ! i = x" and j: "j < length xs" "xs ! j = y"
    by (auto simp: in_set_conv_nth)
  have "i < j"
  proof (rule ccontr)
    assume "\<not> i < j"
    then have "j \<le> i" by simp
    with assms(1) i have "map f xs ! j \<le> map f xs ! i"
      by (intro sorted_nth_mono) simp_all
    with i j assms(4) show False by simp
  qed
  with i j show ?thesis by blast
qed

lemma nest_store_alias:
  "nest store_alias 0 = (store_alias\<lparr>arrs := [[1, 0], [], []]\<rparr>, 0)"
  by (simp add: store_alias_def nest_def js_sort_def snippetsSort_def js_def nest_step_def
      nest_while.simps push_dep_def startsWith_def charCodeAt_def)

lemma dep_edges_store_alias: "dep_edges (store_alias\<lparr>arrs := [[1, 0], [], []]\<rparr>) = {}"
proof -
  have "(u, v) \<notin> dep_edges (store_alias\<lparr>arrs := [[1, 0], [], []]\<rparr>)" for u v
  proof (cases "u = 0 \<or> u = 1")
    case True
    then show ?thesis by (auto simp: dep_edges_def store_alias_def)
  next
    case False
    then have "\<not> u < 2" by auto
    then show ?thesis by (simp add: dep_edges_def store_alias_def)
  qed
  then show ?thesis by auto
qed

text \<open>
  C1, as stated for any two Property snippets of the input. In \<open>store_alias\<close> the
  property name \<^verbatim>\<open>a-b\<close> of the snippet at 1 begins with the property name \<^verbatim>\<open>a\<close> of
  the snippet at 0 followed by a hyphen. The keys are \<^verbatim>\<open>b\<close> and \<^verbatim>\<open>z\<close>, so the sort
  puts the snippet at 1 first; after \<^verbatim>\<open>nest\<close> there is no dependency edge at all,
  the snippet at 1 cannot be reached from the snippet at 0, and it stands before it in
  the returned array.
\<close>

theorem nest_reaches_longhands_counterexample:
  "nest store_alias 0 = (store_alias\<lparr>arrs := [[1, 0], [], []]\<rparr>, 0)
   \<and> 0 \<in> set (arrs store_alias ! 0) \<and> 1 \<in> set (arrs store_alias ! 0)
   \<and> isProperty (objs store_alias ! 0) \<and> isProperty (objs store_alias ! 1)
   \<and> property (objs store_alias ! 0) = js ''a'' \<and> property (objs store_alias ! 1) = js ''a-b''
   \<and> hyphen_extension (property (objs store_alias ! 0)) (property (objs store_alias ! 1))
   \<and> (0, 1) \<notin> (dep_edges (store_alias\<lparr>arrs := [[1, 0], [], []]\<rparr>))\<^sup>*
   \<and> arrs (store_alias\<lparr>arrs := [[1, 0], [], []]\<rparr>) ! 0 = [1, 0]"
proof -
  have "hyphen_extension (property (objs store_alias ! 0)) (property (objs store_alias ! 1))"
    by (simp add: hyphen_extension_code startsWith_def charCodeAt_def store_alias_def js_def)
  moreover have "(0, 1) \<notin> (dep_edges (store_alias\<lparr>arrs := [[1, 0], [], []]\<rparr>))\<^sup>*"
    unfolding dep_edges_store_alias by simp
  moreover have "0 \<in> set (arrs store_alias ! 0)" "1 \<in> set (arrs store_alias ! 0)"
    "isProperty (objs store_alias ! 0)" "isProperty (objs store_alias ! 1)"
    "property (objs store_alias ! 0) = js ''a''" "property (objs store_alias ! 1) = js ''a-b''"
    by (simp_all add: store_alias_def)
  ultimately show ?thesis using nest_store_alias by simp
qed

text \<open>
  C1, amended. Let every Property snippet of the input array have a key equal to its
  property name, a property name of lowercase letters and hyphens (as
  \<^verbatim>\<open>createSnippet\<close> makes them) and a \<^verbatim>\<open>dependencies\<close> array in the store, and
  let no two Property snippets of the array have the same property name. Then for any
  two Property snippets \<open>x\<close> and \<open>y\<close> of the array such that the property name of \<open>y\<close>
  begins with that of \<open>x\<close> followed by a hyphen, after \<^verbatim>\<open>nest\<close> the snippet \<open>y\<close> can
  be reached from \<open>x\<close> along one or more \<^verbatim>\<open>dependencies\<close> edges, and \<open>x\<close> occurs
  before \<open>y\<close> in the returned array.
\<close>

theorem nest_reaches_longhands:
  assumes n: "nest st a = (st', a')"
    and a: "a < length (arrs st)"
    and valid: "\<forall>r\<in>set (arrs st ! a). r < length (objs st) \<and>
           (isProperty (objs st ! r) \<longrightarrow>
              dependencies (objs st ! r) < length (arrs st) \<and>
              key (objs st ! r) = property (objs st ! r) \<and>
              list_all is_ident_char (property (objs st ! r)))"
    and dist: "distinct (map (\<lambda>r. property (objs st ! r))
                 (filter (\<lambda>r. isProperty (objs st ! r)) (arrs st ! a)))"
    and x: "x \<in> set (arrs st ! a)" "isProperty (objs st ! x)"
    and y: "y \<in> set (arrs st ! a)" "isProperty (objs st ! y)"
    and ext: "hyphen_extension (property (objs st ! x)) (property (objs st ! y))"
  shows "(x, y) \<in> (dep_edges st')\<^sup>+ \<and>
         (\<exists>i j. i < j \<and> j < length (arrs st' ! a') \<and> arrs st' ! a' ! i = x \<and> arrs st' ! a' ! j = y)"
proof -
  let ?kf = "\<lambda>r. key (objs st ! r)" and ?P = "\<lambda>r. property (objs st ! r)"
  let ?isP = "\<lambda>r. isProperty (objs st ! r)"
  let ?srt = "sort_key ?kf (arrs st ! a)"
  let ?st1 = "st\<lparr>arrs := (arrs st)[a := ?srt]\<rparr>"
  let ?props = "filter ?isP ?srt"
  from nest_unfold [OF n] a obtain stack where a': "a' = a"
    and f: "fold nest_step ?props (?st1, []) = (st', stack)" by auto
  have g: "grown {r \<in> set (arrs st ! a). ?isP r} ?st1 st'" by (rule nest_grown [OF n])
  then have o: "objs st' = objs st" by (simp add: grown_def)
  have kp: "\<forall>r\<in>set ?props. ?kf r = ?P r" using valid by auto
  have "sorted (map ?kf ?props)" by (intro sorted_filter) simp
  moreover have "map ?kf ?props = map ?P ?props" using kp by (intro map_cong) auto
  ultimately have s: "sorted (map ?P ?props)" by simp
  have "mset (map ?P ?props) = mset (map ?P (filter ?isP (arrs st ! a)))"
    by (simp add: mset_filter)
  with dist have d: "distinct (map ?P ?props)" by (metis mset_eq_imp_distinct_iff)
  from s d have "sorted_wrt (<) (map ?P ?props)" by (simp add: strict_sorted_iff)
  then have sw: "sorted_wrt (\<lambda>u v. ?P u < ?P v) ?props" by (simp add: sorted_wrt_map)
  have v: "\<forall>r\<in>set ([] @ ?props). r < length (objs ?st1) \<and> isProperty (objs ?st1 ! r) \<and>
        dependencies (objs ?st1 ! r) < length (arrs ?st1) \<and>
        (\<forall>c\<in>set (property (objs ?st1 ! r)). 45 \<le> c)"
  proof
    fix r assume "r \<in> set ([] @ ?props)"
    then have r: "r \<in> set (arrs st ! a)" "isProperty (objs st ! r)" by simp_all
    with valid have 1: "r < length (objs st)" "dependencies (objs st ! r) < length (arrs st)"
      and 2: "list_all is_ident_char (?P r)" by blast+
    have "45 \<le> c" if "c \<in> set (?P r)" for c
    proof -
      from 2 that have "is_ident_char c" by (simp add: list_all_iff)
      then show ?thesis by (auto simp: is_ident_char_def)
    qed
    with 1 r(2) show "r < length (objs ?st1) \<and> isProperty (objs ?st1 ! r) \<and>
        dependencies (objs ?st1 ! r) < length (arrs ?st1) \<and>
        (\<forall>c\<in>set (property (objs ?st1 ! r)). 45 \<le> c)" by simp
  qed
  have "sorted_wrt (\<lambda>u v. property (objs ?st1 ! u) < property (objs ?st1 ! v)) ([] @ ?props)"
    using sw by simp
  with v have ok: "nest_input_ok ?st1 ([] @ ?props)"
    unfolding nest_input_ok_def by (rule conjI)
  have inv0: "nest_inv ?st1 [] ?props []" by (simp add: nest_inv_def)
  from fold_nest_step_inv [OF f ok inv0] have inv: "nest_inv st' ?props [] stack" by simp
  have "x \<in> set ?props" "y \<in> set ?props" using x y by simp_all
  with inv ext o have reach: "(x, y) \<in> (dep_edges st')\<^sup>+"
    unfolding nest_inv_def by simp
  from g obtain more where "arrs st' ! a = arrs ?st1 ! a @ more"
    unfolding grown_def by blast
  with a have arr: "arrs st' ! a = ?srt @ more" by simp
  have "?kf x < ?kf y"
    using hyphen_extension_less [OF ext] valid x y by auto
  with sorted_position [of ?kf ?srt x y] x(1) y(1)
  obtain i j where "i < j" "j < length ?srt" "?srt ! i = x" "?srt ! j = y" by auto
  then have "i < j \<and> j < length (arrs st' ! a) \<and> arrs st' ! a ! i = x \<and> arrs st' ! a ! j = y"
    unfolding arr by (simp add: nth_append)
  with reach a' show ?thesis by blast
qed

theorem nest_reaches_longhands_witness:
  "nest store_background 0 = (store_background\<lparr>arrs := [[3, 4, 1, 0, 2], [], [], [4], [1]]\<rparr>, 0)
   \<and> 0 < length (arrs store_background)
   \<and> list_all (\<lambda>r. r < length (objs store_background) \<and>
           (isProperty (objs store_background ! r) \<longrightarrow>
              dependencies (objs store_background ! r) < length (arrs store_background) \<and>
              key (objs store_background ! r) = property (objs store_background ! r) \<and>
              list_all is_ident_char (property (objs store_background ! r))))
         (arrs store_background ! 0)
   \<and> distinct (map (\<lambda>r. property (objs store_background ! r))
                 (filter (\<lambda>r. isProperty (objs store_background ! r)) (arrs store_background ! 0)))
   \<and> 3 \<in> set (arrs store_background ! 0) \<and> isProperty (objs store_background ! 3)
   \<and> 1 \<in> set (arrs store_background ! 0) \<and> isProperty (objs store_background ! 1)
   \<and> property (objs store_background ! 3) = js ''background''
   \<and> property (objs store_background ! 1) = js ''background-position-x''
   \<and> hyphen_extension (js ''background'') (js ''background-position-x'')
   \<and> (3, 1) \<in> (dep_edges (store_background\<lparr>arrs := [[3, 4, 1, 0, 2], [], [], [4], [1]]\<rparr>))\<^sup>+
   \<and> (\<exists>i j. i < j \<and>
          j < length (arrs (store_background\<lparr>arrs := [[3, 4, 1, 0, 2], [], [], [4], [1]]\<rparr>) ! 0) \<and>
          arrs (store_background\<lparr>arrs := [[3, 4, 1, 0, 2], [], [], [4], [1]]\<rparr>) ! 0 ! i = 3 \<and>
          arrs (store_background\<lparr>arrs := [[3, 4, 1, 0, 2], [], [], [4], [1]]\<rparr>) ! 0 ! j = 1)"
proof -
  have h1: "0 < length (arrs store_background)" by (simp add: store_background_def)
  have h2: "list_all (\<lambda>r. r < length (objs store_background) \<and>
           (isProperty (objs store_background ! r) \<longrightarrow>
              dependencies (objs store_background ! r) < length (arrs store_background) \<and>
              key (objs store_background ! r) = property (objs store_background ! r) \<and>
              list_all is_ident_char (property (objs store_background ! r))))
         (arrs store_background ! 0)"
    by (simp add: store_background_def js_def is_ident_char_def)
  have h3: "distinct (map (\<lambda>r. property (objs store_background ! r))
                 (filter (\<lambda>r. isProperty (objs store_background ! r)) (arrs store_background ! 0)))"
    by (simp add: store_background_def js_def)
  have m: "3 \<in> set (arrs store_background ! 0)" "isProperty (objs store_background ! 3)"
    "1 \<in> set (arrs store_background ! 0)" "isProperty (objs store_background ! 1)"
    and q: "property (objs store_background ! 3) = js ''background''"
      "property (objs store_background ! 1) = js ''background-position-x''"
    by (simp_all add: store_background_def)
  have e: "hyphen_extension (js ''background'') (js ''background-position-x'')"
    by (simp add: hyphen_extension_code startsWith_def charCodeAt_def js_def)
  then have e': "hyphen_extension (property (objs store_background ! 3))
      (property (objs store_background ! 1))" using q by simp
  note h2' = h2 [unfolded list_all_iff [of _ "arrs store_background ! 0"]]
  note concl = nest_reaches_longhands [OF nest_store_background h1 h2' h3 m(1,2,3,4) e']
  from concl nest_store_background h1 h2 h3 m q e show ?thesis by blast
qed

section \<open>Properties of \<^verbatim>\<open>getKeywords\<close>\<close>

subsection \<open>The loop\<close>

declare getKeywords_loop.simps [simp del]

lemma set_push_new: "set (push_new dep stack) = insert dep (set stack)"
  by (auto simp: push_new_def)

lemma set_push_deps: "set (push_deps deps stack) = set stack \<union> set deps"
proof (induction deps arbitrary: stack)
  case Nil
  then show ?case by (simp add: push_deps_def)
next
  case (Cons dep deps)
  have "push_deps (dep # deps) stack = push_deps deps (push_new dep stack)"
    by (simp add: push_deps_def)
  with Cons show ?case by (simp add: set_push_new)
qed

lemma push_deps_prefix: "\<exists>ext. push_deps deps stack = stack @ ext"
proof (induction deps arbitrary: stack)
  case Nil
  then show ?case by (simp add: push_deps_def)
next
  case (Cons dep deps)
  have e: "push_deps (dep # deps) stack = push_deps deps (push_new dep stack)"
    by (simp add: push_deps_def)
  obtain ext where "push_deps deps (push_new dep stack) = push_new dep stack @ ext"
    using Cons by blast
  moreover have "\<exists>ext0. push_new dep stack = stack @ ext0" by (simp add: push_new_def)
  ultimately show ?case unfolding e by (metis append.assoc)
qed

lemma loop_exit: "\<not> i < length stack \<Longrightarrow> getKeywords_loop st stack i acc = Inr (stack, fst acc)"
  by (subst getKeywords_loop.simps) simp

lemma loop_step:
  "i < length stack \<Longrightarrow> stack ! i < length (objs st) \<Longrightarrow>
   objs st ! (stack ! i) = Property k p vals d \<Longrightarrow> d < length (arrs st) \<Longrightarrow>
   getKeywords_loop st stack i acc
     = getKeywords_loop st (push_deps (arrs st ! d) stack) (Suc i) (scan_values vals acc)"
  by (subst getKeywords_loop.simps) simp

lemma loop_Inr_cases:
  assumes "getKeywords_loop st stack i acc = Inr (fs, res)"
  shows "(\<not> i < length stack \<and> fs = stack \<and> res = fst acc)
       \<or> (i < length stack \<and> stack ! i < length (objs st) \<and>
          isProperty (objs st ! (stack ! i)) \<and>
          dependencies (objs st ! (stack ! i)) < length (arrs st) \<and>
          getKeywords_loop st (push_deps (arrs st ! dependencies (objs st ! (stack ! i))) stack)
             (Suc i) (scan_values (prop_values (objs st ! (stack ! i))) acc) = Inr (fs, res))"
  using assms
  by (subst (asm) getKeywords_loop.simps) (auto split: if_splits CSSSnippet.splits)

lemma loop_unchanged:
  assumes "\<forall>n\<in>C. (n < length (objs st') \<longleftrightarrow> n < length (objs st)) \<and>
        (n < length (objs st) \<longrightarrow>
           objs st' ! n = objs st ! n \<and>
           (isProperty (objs st ! n) \<longrightarrow>
              (dependencies (objs st ! n) < length (arrs st')
                 \<longleftrightarrow> dependencies (objs st ! n) < length (arrs st)) \<and>
              (dependencies (objs st ! n) < length (arrs st) \<longrightarrow>
                 arrs st' ! dependencies (objs st ! n) = arrs st ! dependencies (objs st ! n))))"
    and "\<forall>n\<in>C. \<forall>y. (n, y) \<in> dep_edges st \<longrightarrow> y \<in> C"
    and "set stack \<subseteq> C"
  shows "getKeywords_loop st' stack i acc = getKeywords_loop st stack i acc"
  using assms
proof (induction st stack i acc rule: getKeywords_loop.induct)
  case (1 st stack i acc)
  note agree = "1.prems"(1) and closed = "1.prems"(2) and sub = "1.prems"(3)
  show ?case
  proof (cases "i < length stack")
    case False
    then show ?thesis by (simp add: loop_exit)
  next
    case True
    let ?n = "stack ! i"
    from True sub have inC: "?n \<in> C" by auto
    show ?thesis
    proof (cases "?n < length (objs st)")
      case False
      with inC agree have "\<not> ?n < length (objs st')" by blast
      with False True show ?thesis
        by (subst getKeywords_loop.simps, subst (2) getKeywords_loop.simps) simp
    next
      case valid: True
      with inC agree have valid': "?n < length (objs st')" and same: "objs st' ! ?n = objs st ! ?n"
        by blast+
      show ?thesis
      proof (cases "objs st ! ?n")
        case (Raw k v)
        with True valid valid' same show ?thesis
          by (subst getKeywords_loop.simps, subst (2) getKeywords_loop.simps) simp
      next
        case (Property k p vals d)
        then have isp: "isProperty (objs st ! ?n)" and d: "dependencies (objs st ! ?n) = d"
          by simp_all
        show ?thesis
        proof (cases "d < length (arrs st)")
          case False
          with inC agree valid isp d have "\<not> d < length (arrs st')" by blast
          with False True valid valid' same Property show ?thesis
            by (subst getKeywords_loop.simps, subst (2) getKeywords_loop.simps) simp
        next
          case dv: True
          with inC agree valid isp d have dv': "d < length (arrs st')"
            and arr: "arrs st' ! d = arrs st ! d" by blast+
          have "set (arrs st ! d) \<subseteq> C"
          proof
            fix y assume "y \<in> set (arrs st ! d)"
            with valid isp d dv have "(?n, y) \<in> dep_edges st" by (simp add: dep_edges_def)
            with closed inC show "y \<in> C" by blast
          qed
          with sub have sub': "set (push_deps (arrs st ! d) stack) \<subseteq> C"
            by (simp add: set_push_deps)
          have "getKeywords_loop st' (push_deps (arrs st ! d) stack) (Suc i) (scan_values vals acc)
                = getKeywords_loop st (push_deps (arrs st ! d) stack) (Suc i) (scan_values vals acc)"
            by (rule "1.IH" [OF True valid Property dv agree closed sub'])
          moreover have "getKeywords_loop st stack i acc
                = getKeywords_loop st (push_deps (arrs st ! d) stack) (Suc i) (scan_values vals acc)"
            by (rule loop_step [OF True valid Property dv])
          moreover have "getKeywords_loop st' stack i acc
                = getKeywords_loop st' (push_deps (arrs st' ! d) stack) (Suc i) (scan_values vals acc)"
            using same Property by (intro loop_step [OF True valid' _ dv']) simp
          ultimately show ?thesis using arr by simp
        qed
      qed
    qed
  qed
qed

lemma fold_over_concat: "fold f (concat xss) = fold (fold f) xss"
  by (induction xss) simp_all

lemma scan_values_occs:
  "scan_values vals acc = fold (\<lambda>oc. add_keyword (fst oc) (snd oc)) (occs vals) acc"
proof -
  have "fold (\<lambda>oc. add_keyword (fst oc) (snd oc)) (map (Pair idx) kws) = fold (add_keyword idx) kws"
    for idx kws
    by (simp add: fold_map comp_def)
  then show ?thesis
    by (simp add: scan_values_def occs_def fold_over_concat fold_map comp_def)
qed

lemma set_occs:
  "set (occs vals) = {(idx, kw). idx < length vals \<and> kw \<in> set (keywordsFromValue (vals ! idx))}"
  by (auto simp: occs_def)

lemma snd_set_occs: "snd ` set (occs vals) = (\<Union>alt\<in>set vals. set (keywordsFromValue alt))"
  by (force simp: set_occs in_set_conv_nth)

lemma wf_storeD:
  assumes "wf_store st" "n < length (objs st)" "isProperty (objs st ! n)"
  shows "dependencies (objs st ! n) < length (arrs st)"
    and "\<forall>y\<in>set (arrs st ! dependencies (objs st ! n)). y < length (objs st) \<and> isProperty (objs st ! y)"
  using assms unfolding wf_store_def list_all_iff by (metis nth_mem)+

text \<open>The loop extends the stack, and returns under the typing of the store.\<close>

lemma loop_prefix:
  "getKeywords_loop st stack i acc = Inr (fs, res) \<Longrightarrow> \<exists>ext. fs = stack @ ext"
proof (induction st stack i acc rule: getKeywords_loop.induct)
  case (1 st stack i acc)
  from loop_Inr_cases [OF "1.prems"] show ?case
  proof
    assume "\<not> i < length stack \<and> fs = stack \<and> res = fst acc"
    then show ?thesis by simp
  next
    assume a: "i < length stack \<and> stack ! i < length (objs st) \<and>
          isProperty (objs st ! (stack ! i)) \<and>
          dependencies (objs st ! (stack ! i)) < length (arrs st) \<and>
          getKeywords_loop st (push_deps (arrs st ! dependencies (objs st ! (stack ! i))) stack)
             (Suc i) (scan_values (prop_values (objs st ! (stack ! i))) acc) = Inr (fs, res)"
    then obtain k p vals d where o: "objs st ! (stack ! i) = Property k p vals d"
      by (cases "objs st ! (stack ! i)") auto
    with a have "\<exists>ext. fs = push_deps (arrs st ! d) stack @ ext"
      by (intro "1.IH" [OF _ _ o]) simp_all
    then show ?thesis using push_deps_prefix [of "arrs st ! d" stack] by (metis append.assoc)
  qed
qed

lemma loop_total:
  assumes "wf_store st" "\<forall>n\<in>set stack. n < length (objs st) \<and> isProperty (objs st ! n)"
  shows "\<exists>fs res. getKeywords_loop st stack i acc = Inr (fs, res)"
  using assms
proof (induction st stack i acc rule: getKeywords_loop.induct)
  case (1 st stack i acc)
  show ?case
  proof (cases "i < length stack")
    case False
    then show ?thesis by (simp add: loop_exit)
  next
    case True
    with "1.prems"(2) have v: "stack ! i < length (objs st)" and p: "isProperty (objs st ! (stack ! i))"
      by auto
    then obtain k q vals d where o: "objs st ! (stack ! i) = Property k q vals d"
      by (cases "objs st ! (stack ! i)") auto
    from wf_storeD [OF "1.prems"(1) v p] o
    have d: "d < length (arrs st)"
      and deps: "\<forall>y\<in>set (arrs st ! d). y < length (objs st) \<and> isProperty (objs st ! y)"
      by simp_all
    have "\<forall>n\<in>set (push_deps (arrs st ! d) stack). n < length (objs st) \<and> isProperty (objs st ! n)"
      using deps "1.prems"(2) by (auto simp: set_push_deps)
    from "1.IH" [OF True v o d "1.prems"(1) this] loop_step [OF True v o d]
    show ?thesis by simp
  qed
qed

text \<open>The result is the deduplication of the keywords of the nodes of the final stack.\<close>

lemma loop_result:
  "getKeywords_loop st stack i acc = Inr (fs, res) \<Longrightarrow>
   res = fst (fold (\<lambda>oc. add_keyword (fst oc) (snd oc))
                (concat (map (\<lambda>n. occs (prop_values (objs st ! n))) (drop i fs))) acc)"
proof (induction st stack i acc rule: getKeywords_loop.induct)
  case (1 st stack i acc)
  from loop_Inr_cases [OF "1.prems"] show ?case
  proof
    assume "\<not> i < length stack \<and> fs = stack \<and> res = fst acc"
    then show ?thesis by simp
  next
    assume a: "i < length stack \<and> stack ! i < length (objs st) \<and>
          isProperty (objs st ! (stack ! i)) \<and>
          dependencies (objs st ! (stack ! i)) < length (arrs st) \<and>
          getKeywords_loop st (push_deps (arrs st ! dependencies (objs st ! (stack ! i))) stack)
             (Suc i) (scan_values (prop_values (objs st ! (stack ! i))) acc) = Inr (fs, res)"
    then obtain k p vals d where o: "objs st ! (stack ! i) = Property k p vals d"
      by (cases "objs st ! (stack ! i)") auto
    from a o have ih: "res = fst (fold (\<lambda>oc. add_keyword (fst oc) (snd oc))
                (concat (map (\<lambda>n. occs (prop_values (objs st ! n))) (drop (Suc i) fs)))
                (scan_values vals acc))"
      by (intro "1.IH" [OF _ _ o]) simp_all
    obtain ext where fs: "fs = stack @ ext" using loop_prefix [OF "1.prems"] by blast
    with a have i: "i < length fs" and n: "fs ! i = stack ! i" by (simp_all add: nth_append)
    have "drop i fs = stack ! i # drop (Suc i) fs"
      using Cons_nth_drop_Suc [OF i] n by simp
    with ih o show ?thesis by (simp add: scan_values_occs)
  qed
qed

text \<open>Every node from the cursor on is a Property with its dependencies in the final stack.\<close>

lemma loop_nodes:
  "getKeywords_loop st stack i acc = Inr (fs, res) \<Longrightarrow> i \<le> j \<Longrightarrow> j < length fs \<Longrightarrow>
   fs ! j < length (objs st) \<and> isProperty (objs st ! (fs ! j)) \<and>
   dependencies (objs st ! (fs ! j)) < length (arrs st) \<and>
   set (arrs st ! dependencies (objs st ! (fs ! j))) \<subseteq> set fs"
proof (induction st stack i acc rule: getKeywords_loop.induct)
  case (1 st stack i acc)
  from loop_Inr_cases [OF "1.prems"(1)] show ?case
  proof
    assume "\<not> i < length stack \<and> fs = stack \<and> res = fst acc"
    with "1.prems" show ?thesis by simp
  next
    assume a: "i < length stack \<and> stack ! i < length (objs st) \<and>
          isProperty (objs st ! (stack ! i)) \<and>
          dependencies (objs st ! (stack ! i)) < length (arrs st) \<and>
          getKeywords_loop st (push_deps (arrs st ! dependencies (objs st ! (stack ! i))) stack)
             (Suc i) (scan_values (prop_values (objs st ! (stack ! i))) acc) = Inr (fs, res)"
    then obtain k p vals d where o: "objs st ! (stack ! i) = Property k p vals d"
      by (cases "objs st ! (stack ! i)") auto
    with a have rec: "getKeywords_loop st (push_deps (arrs st ! d) stack) (Suc i)
        (scan_values vals acc) = Inr (fs, res)" by simp
    show ?thesis
    proof (cases "j = i")
      case True
      obtain ext where fs: "fs = stack @ ext" using loop_prefix [OF "1.prems"(1)] by blast
      with a True have n: "fs ! j = stack ! i" by (simp add: nth_append)
      obtain ext' where "fs = push_deps (arrs st ! d) stack @ ext'"
        using loop_prefix [OF rec] by blast
      then have "set (arrs st ! d) \<subseteq> set fs" by (auto simp: set_push_deps)
      with a o n show ?thesis by simp
    next
      case False
      with "1.prems"(2) have "Suc i \<le> j" by simp
      with a o rec "1.prems"(3) show ?thesis
        by (intro "1.IH" [OF _ _ o]) simp_all
    qed
  qed
qed

text \<open>The final stack stays inside every set that holds the stack and is closed under the edges.\<close>

lemma loop_sound:
  "getKeywords_loop st stack i acc = Inr (fs, res) \<Longrightarrow> set stack \<subseteq> C \<Longrightarrow>
   \<forall>n\<in>C. \<forall>y. (n, y) \<in> dep_edges st \<longrightarrow> y \<in> C \<Longrightarrow> set fs \<subseteq> C"
proof (induction st stack i acc rule: getKeywords_loop.induct)
  case (1 st stack i acc)
  from loop_Inr_cases [OF "1.prems"(1)] show ?case
  proof
    assume "\<not> i < length stack \<and> fs = stack \<and> res = fst acc"
    with "1.prems" show ?thesis by simp
  next
    assume a: "i < length stack \<and> stack ! i < length (objs st) \<and>
          isProperty (objs st ! (stack ! i)) \<and>
          dependencies (objs st ! (stack ! i)) < length (arrs st) \<and>
          getKeywords_loop st (push_deps (arrs st ! dependencies (objs st ! (stack ! i))) stack)
             (Suc i) (scan_values (prop_values (objs st ! (stack ! i))) acc) = Inr (fs, res)"
    then obtain k p vals d where o: "objs st ! (stack ! i) = Property k p vals d"
      by (cases "objs st ! (stack ! i)") auto
    with a have rec: "getKeywords_loop st (push_deps (arrs st ! d) stack) (Suc i)
        (scan_values vals acc) = Inr (fs, res)" by simp
    from a "1.prems"(2) have inC: "stack ! i \<in> C" by auto
    have "set (arrs st ! d) \<subseteq> C"
    proof
      fix y assume "y \<in> set (arrs st ! d)"
      with a o have "(stack ! i, y) \<in> dep_edges st" by (simp add: dep_edges_def)
      with "1.prems"(3) inC show "y \<in> C" by blast
    qed
    with "1.prems"(2) have "set (push_deps (arrs st ! d) stack) \<subseteq> C"
      by (simp add: set_push_deps)
    with a o rec "1.prems"(3) show ?thesis
      by (intro "1.IH" [OF _ _ o]) simp_all
  qed
qed

text \<open>Deduplication: what the accumulator holds after a run over a list of occurrences.\<close>

lemma add_keyword_lookup:
  "snd (add_keyword idx kw acc) = insert kw (snd acc)"
  by (auto simp: add_keyword_def)

lemma fold_add_lookup:
  "snd (fold (\<lambda>oc. add_keyword (fst oc) (snd oc)) os acc) = snd acc \<union> snd ` set os"
  by (induction os arbitrary: acc) (auto simp: add_keyword_lookup)

lemma add_keyword_inv:
  assumes "snd acc = keyword ` set (fst acc)" "distinct (map keyword (fst acc))"
  shows "snd (add_keyword idx kw acc) = keyword ` set (fst (add_keyword idx kw acc))"
    and "distinct (map keyword (fst (add_keyword idx kw acc)))"
  using assms by (auto simp: add_keyword_def)

lemma fold_add_inv:
  assumes "snd acc = keyword ` set (fst acc)" "distinct (map keyword (fst acc))"
  shows "snd (fold (\<lambda>oc. add_keyword (fst oc) (snd oc)) os acc)
           = keyword ` set (fst (fold (\<lambda>oc. add_keyword (fst oc) (snd oc)) os acc))
       \<and> distinct (map keyword (fst (fold (\<lambda>oc. add_keyword (fst oc) (snd oc)) os acc)))"
  using assms
proof (induction os arbitrary: acc)
  case Nil
  then show ?case by simp
next
  case (Cons oc os)
  from add_keyword_inv [OF Cons.prems] Cons.IH show ?case by simp
qed

lemma fold_add_first:
  assumes "e \<in> set (fst (fold (\<lambda>oc. add_keyword (fst oc) (snd oc)) os acc))"
  shows "e \<in> set (fst acc) \<or>
         (keyword e \<notin> snd acc \<and>
          (\<exists>pre post. os = pre @ (index e, keyword e) # post \<and> keyword e \<notin> snd ` set pre))"
  using assms
proof (induction os arbitrary: acc)
  case Nil
  then show ?case by simp
next
  case (Cons oc os)
  let ?acc = "add_keyword (fst oc) (snd oc) acc"
  from Cons.prems have "e \<in> set (fst (fold (\<lambda>oc. add_keyword (fst oc) (snd oc)) os ?acc))"
    by simp
  from Cons.IH [OF this] show ?case
  proof
    assume in1: "e \<in> set (fst ?acc)"
    show ?thesis
    proof (cases "e \<in> set (fst acc)")
      case True
      then show ?thesis by simp
    next
      case False
      with in1 have new: "snd oc \<notin> snd acc" and e: "e = \<lparr>keyword = snd oc, index = fst oc\<rparr>"
        by (auto simp: add_keyword_def split: if_splits)
      then have "oc # os = [] @ (index e, keyword e) # os \<and> keyword e \<notin> snd ` set []"
        by simp
      moreover from new e have "keyword e \<notin> snd acc" by simp
      ultimately show ?thesis by blast
    qed
  next
    assume "keyword e \<notin> snd ?acc \<and>
          (\<exists>pre post. os = pre @ (index e, keyword e) # post \<and> keyword e \<notin> snd ` set pre)"
    then obtain pre post where nk: "keyword e \<notin> snd ?acc"
      and os: "os = pre @ (index e, keyword e) # post" and np: "keyword e \<notin> snd ` set pre"
      by blast
    from nk have "keyword e \<noteq> snd oc" "keyword e \<notin> snd acc"
      by (simp_all add: add_keyword_lookup)
    moreover have "oc # os = (oc # pre) @ (index e, keyword e) # post" using os by simp
    moreover have "keyword e \<notin> snd ` set (oc # pre)"
      using np \<open>keyword e \<noteq> snd oc\<close> by auto
    ultimately show ?thesis by blast
  qed
qed

lemma first_in_concat:
  "concat xss = pre @ x # post \<Longrightarrow>
   \<exists>j ys zs. j < length xss \<and> xss ! j = ys @ x # zs \<and> pre = concat (take j xss) @ ys"
proof (induction xss arbitrary: pre)
  case Nil
  then show ?case by simp
next
  case (Cons xs xss)
  then have "xs @ concat xss = pre @ x # post" by simp
  then consider us where "xs = pre @ us" "us @ concat xss = x # post"
    | vs where "xs @ vs = pre" "concat xss = vs @ x # post"
    by (auto simp: append_eq_append_conv2)
  then show ?case
  proof cases
    case 1
    show ?thesis
    proof (cases us)
      case Nil
      with 1 have "concat xss = [] @ x # post" by simp
      from Cons.IH [OF this] obtain j ys zs where
        "j < length xss" "xss ! j = ys @ x # zs" "[] = concat (take j xss) @ ys" by blast
      with 1 Nil have "Suc j < length (xs # xss) \<and> (xs # xss) ! Suc j = ys @ x # zs \<and>
          pre = concat (take (Suc j) (xs # xss)) @ ys" by simp
      then show ?thesis by blast
    next
      case (Cons u us')
      with 1 have "0 < length (xs # xss) \<and> (xs # xss) ! 0 = pre @ x # us' \<and>
          pre = concat (take 0 (xs # xss)) @ pre" by simp
      then show ?thesis by blast
    qed
  next
    case 2
    from Cons.IH [OF 2(2)] obtain j ys zs where
      "j < length xss" "xss ! j = ys @ x # zs" "vs = concat (take j xss) @ ys" by blast
    with 2 have "Suc j < length (xs # xss) \<and> (xs # xss) ! Suc j = ys @ x # zs \<and>
          pre = concat (take (Suc j) (xs # xss)) @ ys" by auto
    then show ?thesis by blast
  qed
qed

lemma first_in_occs:
  assumes "occs vals = ys @ (idx, kw) # zs" "kw \<notin> snd ` set ys"
  shows "idx < length vals \<and> kw \<in> set (keywordsFromValue (vals ! idx)) \<and>
         (\<forall>i<idx. kw \<notin> set (keywordsFromValue (vals ! i)))"
proof -
  have "(idx, kw) \<in> set (occs vals)" using assms(1) by simp
  then have 1: "idx < length vals" "kw \<in> set (keywordsFromValue (vals ! idx))"
    by (simp_all add: set_occs)
  let ?G = "\<lambda>i. map (Pair i) (keywordsFromValue (vals ! i))"
  from assms(1) have "concat (map ?G [0..<length vals]) = ys @ (idx, kw) # zs"
    by (simp add: occs_def)
  from first_in_concat [OF this] obtain m ys' zs' where m: "m < length vals"
    and g: "map ?G [0..<length vals] ! m = ys' @ (idx, kw) # zs'"
    and ys: "ys = concat (take m (map ?G [0..<length vals])) @ ys'" by auto
  from g m have "(idx, kw) \<in> set (?G m)" by simp
  then have "m = idx" by auto
  have "kw \<notin> set (keywordsFromValue (vals ! i))" if "i < idx" for i
  proof
    assume "kw \<in> set (keywordsFromValue (vals ! i))"
    then have "(i, kw) \<in> set (?G i)" by simp
    moreover have "?G i \<in> set (take m (map ?G [0..<length vals]))"
    proof -
      have "take m (map ?G [0..<length vals]) ! i = ?G i"
        using that m \<open>m = idx\<close> by simp
      moreover have "i < length (take m (map ?G [0..<length vals]))"
        using that m \<open>m = idx\<close> by simp
      ultimately show ?thesis by (metis nth_mem)
    qed
    ultimately have "(i, kw) \<in> set (concat (take m (map ?G [0..<length vals])))"
      unfolding set_concat by blast
    then have "(i, kw) \<in> set ys" unfolding ys by simp
    then have "kw \<in> snd ` set ys" by force
    with assms(2) show False by simp
  qed
  with 1 show ?thesis by simp
qed

lemma reach_in_closed:
  assumes "(r, n) \<in> (dep_edges st)\<^sup>*" "r \<in> C" "\<forall>n\<in>C. \<forall>y. (n, y) \<in> dep_edges st \<longrightarrow> y \<in> C"
  shows "n \<in> C"
  using assms by (induction rule: rtrancl_induct) auto

lemma getKeywords_store_cycle:
  "getKeywords store_cycle 0 =
     Inr [\<lparr>keyword = js ''x'', index = 0\<rparr>, \<lparr>keyword = js ''f'', index = 0\<rparr>,
          \<lparr>keyword = js ''y'', index = 1\<rparr>, \<lparr>keyword = js ''z'', index = 1\<rparr>]"
  by code_simp

lemma dep_edges_store_cycle_closed:
  "\<forall>n\<in>{0, 1}. \<forall>y. (n, y) \<in> dep_edges store_cycle \<longrightarrow> y \<in> {0, 1}"
  by (simp add: dep_edges_def store_cycle_def)

lemma node_keywords_occs:
  "isProperty s \<Longrightarrow> snd ` set (occs (prop_values s)) = node_keywords s"
  by (simp add: node_keywords_def snd_set_occs)

lemma getKeywords_run_Inr:
  assumes "getKeywords_run st r = Inr (fs, res)"
  shows "r < length (objs st)"
    and "getKeywords_loop st (if isProperty (objs st ! r) then [r] else []) 0 ([], {}) = Inr (fs, res)"
  using assms by (auto simp: getKeywords_run_def split: if_splits)

lemma getKeywords_run_result:
  assumes "getKeywords_run st r = Inr (fs, res)"
  shows "res = fst (fold (\<lambda>oc. add_keyword (fst oc) (snd oc))
                  (concat (map (\<lambda>n. occs (prop_values (objs st ! n))) fs)) ([], {}))"
    and "distinct (map keyword res)"
    and "keyword ` set res = (\<Union>n\<in>set fs. node_keywords (objs st ! n))"
    and "\<forall>n\<in>set fs. n < length (objs st) \<and> isProperty (objs st ! n) \<and>
           dependencies (objs st ! n) < length (arrs st) \<and>
           set (arrs st ! dependencies (objs st ! n)) \<subseteq> set fs"
proof -
  let ?os = "concat (map (\<lambda>n. occs (prop_values (objs st ! n))) fs)"
  let ?acc = "fold (\<lambda>oc. add_keyword (fst oc) (snd oc)) ?os ([], {})"
  note loop = getKeywords_run_Inr(2) [OF assms]
  from loop_result [OF loop] show res: "res = fst ?acc" by simp
  have inv: "snd ?acc = keyword ` set (fst ?acc) \<and> distinct (map keyword (fst ?acc))"
    by (rule fold_add_inv) simp_all
  with res show "distinct (map keyword res)" by simp
  show nodes: "\<forall>n\<in>set fs. n < length (objs st) \<and> isProperty (objs st ! n) \<and>
           dependencies (objs st ! n) < length (arrs st) \<and>
           set (arrs st ! dependencies (objs st ! n)) \<subseteq> set fs"
  proof
    fix n assume "n \<in> set fs"
    then obtain j where "j < length fs" "fs ! j = n" by (auto simp: in_set_conv_nth)
    with loop_nodes [OF loop, of j] show "n < length (objs st) \<and> isProperty (objs st ! n) \<and>
           dependencies (objs st ! n) < length (arrs st) \<and>
           set (arrs st ! dependencies (objs st ! n)) \<subseteq> set fs" by simp
  qed
  have "keyword ` set res = snd ?acc" using inv res by simp
  also have "\<dots> = snd ` set ?os" by (simp add: fold_add_lookup)
  also have "\<dots> = (\<Union>n\<in>set fs. snd ` set (occs (prop_values (objs st ! n))))"
    by (auto simp: image_UN)
  also have "\<dots> = (\<Union>n\<in>set fs. node_keywords (objs st ! n))"
    using nodes by (simp add: node_keywords_occs)
  finally show "keyword ` set res = (\<Union>n\<in>set fs. node_keywords (objs st ! n))" .
qed

lemma wf_store_cycle: "wf_store store_cycle"
  by (simp add: wf_store_def store_cycle_def)

lemma getKeywords_run_store_cycle_1:
  "getKeywords_run store_cycle 1 =
     Inr ([1, 0],
          [\<lparr>keyword = js ''y'', index = 0\<rparr>, \<lparr>keyword = js ''z'', index = 1\<rparr>,
           \<lparr>keyword = js ''x'', index = 0\<rparr>, \<lparr>keyword = js ''f'', index = 0\<rparr>])"
  by code_simp

subsection \<open>Repeated calls\<close>

text \<open>
  C9. \<^verbatim>\<open>getKeywords\<close> reads the store and writes nothing to it. Its outcome is
  determined by the snippets that can be reached from the argument: when between two
  calls none of them has been mutated (whatever else has happened to the store in the
  meantime), the second call returns the sequence of keyword references that the first
  returned, or fails as the first did.
\<close>

theorem getKeywords_idempotent:
  assumes "unchanged_from st st' r"
  shows "getKeywords st' r = getKeywords st r"
proof -
  let ?C = "{n. (r, n) \<in> (dep_edges st)\<^sup>*}"
  have r: "r \<in> ?C" by simp
  have closed: "\<forall>n\<in>?C. \<forall>y. (n, y) \<in> dep_edges st \<longrightarrow> y \<in> ?C"
    by (auto intro: rtrancl_into_rtrancl)
  have agree: "\<forall>n\<in>?C. (n < length (objs st') \<longleftrightarrow> n < length (objs st)) \<and>
        (n < length (objs st) \<longrightarrow>
           objs st' ! n = objs st ! n \<and>
           (isProperty (objs st ! n) \<longrightarrow>
              (dependencies (objs st ! n) < length (arrs st')
                 \<longleftrightarrow> dependencies (objs st ! n) < length (arrs st)) \<and>
              (dependencies (objs st ! n) < length (arrs st) \<longrightarrow>
                 arrs st' ! dependencies (objs st ! n) = arrs st ! dependencies (objs st ! n))))"
    using assms unfolding unchanged_from_def by blast
  from agree r have r1: "r < length (objs st') \<longleftrightarrow> r < length (objs st)"
    and r2: "r < length (objs st) \<longrightarrow> objs st' ! r = objs st ! r" by blast+
  have "getKeywords_run st' r = getKeywords_run st r"
  proof (cases "r < length (objs st)")
    case False
    with r1 show ?thesis by (simp add: getKeywords_run_def)
  next
    case True
    let ?stack = "if isProperty (objs st ! r) then [r] else []"
    have "set ?stack \<subseteq> ?C" by auto
    from loop_unchanged [OF agree closed this] True r1 r2 show ?thesis
      by (simp add: getKeywords_run_def)
  qed
  then show ?thesis by (simp add: getKeywords_def)
qed

theorem getKeywords_idempotent_witness:
  "unchanged_from store_cycle store_cycle' 0
   \<and> store_cycle' \<noteq> store_cycle
   \<and> getKeywords store_cycle' 0 = getKeywords store_cycle 0
   \<and> getKeywords store_cycle 0 =
     Inr [\<lparr>keyword = js ''x'', index = 0\<rparr>, \<lparr>keyword = js ''f'', index = 0\<rparr>,
          \<lparr>keyword = js ''y'', index = 1\<rparr>, \<lparr>keyword = js ''z'', index = 1\<rparr>]"
proof -
  note closed = dep_edges_store_cycle_closed
  have sub: "n \<in> {0, 1}" if "(0, n) \<in> (dep_edges store_cycle)\<^sup>*" for n
    using reach_in_closed [OF that _ closed] by simp
  have h: "unchanged_from store_cycle store_cycle' 0"
    unfolding unchanged_from_def
  proof (intro allI impI)
    fix n assume "(0, n) \<in> (dep_edges store_cycle)\<^sup>*"
    then have "n = 0 \<or> n = 1" using sub by blast
    then show "(n < length (objs store_cycle') \<longleftrightarrow> n < length (objs store_cycle)) \<and>
        (n < length (objs store_cycle) \<longrightarrow>
           objs store_cycle' ! n = objs store_cycle ! n \<and>
           (isProperty (objs store_cycle ! n) \<longrightarrow>
              (dependencies (objs store_cycle ! n) < length (arrs store_cycle')
                 \<longleftrightarrow> dependencies (objs store_cycle ! n) < length (arrs store_cycle)) \<and>
              (dependencies (objs store_cycle ! n) < length (arrs store_cycle) \<longrightarrow>
                 arrs store_cycle' ! dependencies (objs store_cycle ! n)
                   = arrs store_cycle ! dependencies (objs store_cycle ! n))))"
      by (auto simp: store_cycle'_def store_cycle_def)
  qed
  have ne: "store_cycle' \<noteq> store_cycle"
    by (simp add: store_cycle'_def store_cycle_def)
  have e: "getKeywords store_cycle' 0 = getKeywords store_cycle 0"
    by (rule getKeywords_idempotent [OF h])
  show ?thesis by (intro conjI) (rule h ne e getKeywords_store_cycle)+
qed

subsection \<open>Termination and the keywords found\<close>

text \<open>
  C3. In a store that respects the typing of \<^verbatim>\<open>dependencies\<close>, with or without
  cycles among the \<^verbatim>\<open>dependencies\<close> edges, \<^verbatim>\<open>getKeywords\<close> returns: the loop
  is a total function (its termination is proved with the definition) and it ends
  without an error. The keywords of the result are those of the snippets that can be
  reached from the argument, all of them and no others, and no keyword occurs twice.
  The first example is a store in which two snippets are each the dependency of the
  other.
\<close>

theorem getKeywords_terminates_on_cycles:
  assumes "wf_store st" "r < length (objs st)"
  shows "\<exists>res. getKeywords st r = Inr res \<and> distinct (map keyword res) \<and>
           set (map keyword res) = (\<Union>n\<in>{n. (r, n) \<in> (dep_edges st)\<^sup>*}. node_keywords (objs st ! n))"
proof (cases "isProperty (objs st ! r)")
  case False
  then have run: "getKeywords_run st r = Inr ([], [])"
    using assms(2) by (simp add: getKeywords_run_def loop_exit)
  have "n = r" if "(r, n) \<in> (dep_edges st)\<^sup>*" for n
    using that False by (induction rule: rtrancl_induct) (auto simp: dep_edges_def)
  then have "{n. (r, n) \<in> (dep_edges st)\<^sup>*} = {r}" by auto
  with run False show ?thesis by (simp add: getKeywords_def node_keywords_def)
next
  case True
  let ?C = "{n. (r, n) \<in> (dep_edges st)\<^sup>*}"
  have "\<forall>n\<in>set [r]. n < length (objs st) \<and> isProperty (objs st ! n)"
    using True assms(2) by simp
  from loop_total [OF assms(1) this] obtain fs res
    where loop: "getKeywords_loop st [r] 0 ([], {}) = Inr (fs, res)" by blast
  with True assms(2) have run: "getKeywords_run st r = Inr (fs, res)"
    by (simp add: getKeywords_run_def)
  note facts = getKeywords_run_result [OF run]
  have closedC: "\<forall>n\<in>?C. \<forall>y. (n, y) \<in> dep_edges st \<longrightarrow> y \<in> ?C"
    by (auto intro: rtrancl_into_rtrancl)
  have "set fs \<subseteq> ?C"
    by (rule loop_sound [OF loop _ closedC]) simp
  moreover have "?C \<subseteq> set fs"
  proof
    fix n assume "n \<in> ?C"
    then have reach: "(r, n) \<in> (dep_edges st)\<^sup>*" by simp
    from loop_prefix [OF loop] have r: "r \<in> set fs" by auto
    have closed: "\<forall>n\<in>set fs. \<forall>y. (n, y) \<in> dep_edges st \<longrightarrow> y \<in> set fs"
      using facts(4) by (auto simp: dep_edges_def)
    from reach_in_closed [OF reach r closed] show "n \<in> set fs" .
  qed
  ultimately have "set fs = ?C" by blast
  with facts(2,3) run show ?thesis by (simp add: getKeywords_def)
qed

theorem getKeywords_terminates_on_cycles_witness:
  "wf_store store_cycle \<and> 0 < length (objs store_cycle)
   \<and> (0, 1) \<in> dep_edges store_cycle \<and> (1, 0) \<in> dep_edges store_cycle
   \<and> getKeywords store_cycle 0 =
       Inr [\<lparr>keyword = js ''x'', index = 0\<rparr>, \<lparr>keyword = js ''f'', index = 0\<rparr>,
            \<lparr>keyword = js ''y'', index = 1\<rparr>, \<lparr>keyword = js ''z'', index = 1\<rparr>]
   \<and> set [js ''x'', js ''f'', js ''y'', js ''z'']
       = (\<Union>n\<in>{n. (0, n) \<in> (dep_edges store_cycle)\<^sup>*}. node_keywords (objs store_cycle ! n))"
proof -
  have h: "0 < length (objs store_cycle)" by (simp add: store_cycle_def)
  have c: "(0, 1) \<in> dep_edges store_cycle" "(1, 0) \<in> dep_edges store_cycle"
    by (simp_all add: dep_edges_def store_cycle_def)
  from getKeywords_terminates_on_cycles [OF wf_store_cycle h] getKeywords_store_cycle
  have "set [js ''x'', js ''f'', js ''y'', js ''z'']
       = (\<Union>n\<in>{n. (0, n) \<in> (dep_edges store_cycle)\<^sup>*}. node_keywords (objs store_cycle ! n))"
    by auto
  with wf_store_cycle h c getKeywords_store_cycle show ?thesis by blast
qed

subsection \<open>The index of a keyword\<close>

text \<open>
  C4. In the list that \<^verbatim>\<open>getKeywords\<close> returns no two entries have the same keyword.
  For every entry there is a node of the traversal (the final \<^verbatim>\<open>stack\<close>, in the
  order of the visits) such that the entry's \<^verbatim>\<open>index\<close> is the position of an
  alternative of that node's \<^verbatim>\<open>value\<close> which holds the keyword, no earlier
  alternative of the node holds it, and no node visited earlier has it: the node is
  the one where the keyword was met first, and the index is the position of the
  alternative that produced it there.
\<close>

theorem getKeywords_first_occurrence:
  assumes "getKeywords st r = Inr res"
  shows "distinct (map keyword res) \<and>
     (\<exists>order. getKeywords_run st r = Inr (order, res) \<and>
        (\<forall>e\<in>set res. \<exists>j<length order.
            index e < length (prop_values (objs st ! (order ! j))) \<and>
            keyword e \<in> set (keywordsFromValue (prop_values (objs st ! (order ! j)) ! index e)) \<and>
            (\<forall>i<index e.
                keyword e \<notin> set (keywordsFromValue (prop_values (objs st ! (order ! j)) ! i))) \<and>
            (\<forall>j'<j. keyword e \<notin> node_keywords (objs st ! (order ! j')))))"
proof -
  from assms obtain fs where run: "getKeywords_run st r = Inr (fs, res)"
    by (auto simp: getKeywords_def split: sum.splits)
  note facts = getKeywords_run_result [OF run]
  let ?F = "\<lambda>n. occs (prop_values (objs st ! n))"
  have "\<exists>j<length fs.
            index e < length (prop_values (objs st ! (fs ! j))) \<and>
            keyword e \<in> set (keywordsFromValue (prop_values (objs st ! (fs ! j)) ! index e)) \<and>
            (\<forall>i<index e.
                keyword e \<notin> set (keywordsFromValue (prop_values (objs st ! (fs ! j)) ! i))) \<and>
            (\<forall>j'<j. keyword e \<notin> node_keywords (objs st ! (fs ! j')))"
    if e: "e \<in> set res" for e
  proof -
    from e facts(1) have "e \<in> set (fst (fold (\<lambda>oc. add_keyword (fst oc) (snd oc))
                  (concat (map ?F fs)) ([], {})))" by simp
    from fold_add_first [OF this] obtain pre post
      where os: "concat (map ?F fs) = pre @ (index e, keyword e) # post"
        and np: "keyword e \<notin> snd ` set pre" by auto
    from first_in_concat [OF os] obtain j ys zs where j: "j < length fs"
      and fj: "?F (fs ! j) = ys @ (index e, keyword e) # zs"
      and pre: "pre = concat (take j (map ?F fs)) @ ys" by auto
    from np pre have nys: "keyword e \<notin> snd ` set ys" by auto
    note here = first_in_occs [OF fj nys]
    have "keyword e \<notin> node_keywords (objs st ! (fs ! j'))" if j': "j' < j" for j'
    proof
      assume k: "keyword e \<in> node_keywords (objs st ! (fs ! j'))"
      have "fs ! j' \<in> set fs" using j j' by simp
      with facts(4) have "isProperty (objs st ! (fs ! j'))" by blast
      with k have "keyword e \<in> snd ` set (?F (fs ! j'))" by (simp add: node_keywords_occs)
      moreover have "?F (fs ! j') \<in> set (take j (map ?F fs))"
      proof -
        have "take j (map ?F fs) ! j' = ?F (fs ! j')" using j j' by simp
        moreover have "j' < length (take j (map ?F fs))" using j j' by simp
        ultimately show ?thesis by (metis nth_mem)
      qed
      ultimately have "keyword e \<in> snd ` set (concat (take j (map ?F fs)))"
        unfolding set_concat by blast
      with np pre show False by auto
    qed
    with here j show ?thesis by blast
  qed
  with facts(2) run show ?thesis by blast
qed

theorem getKeywords_first_occurrence_witness:
  "getKeywords store_cycle 1 =
     Inr [\<lparr>keyword = js ''y'', index = 0\<rparr>, \<lparr>keyword = js ''z'', index = 1\<rparr>,
          \<lparr>keyword = js ''x'', index = 0\<rparr>, \<lparr>keyword = js ''f'', index = 0\<rparr>]
   \<and> (\<exists>j<length [1, 0 :: nat].
          (0::nat) < length (prop_values (objs store_cycle ! ([1, 0] ! j))) \<and>
          js ''x'' \<in> set (keywordsFromValue (prop_values (objs store_cycle ! ([1, 0] ! j)) ! 0)) \<and>
          (\<forall>j'<j. js ''x'' \<notin> node_keywords (objs store_cycle ! ([1, 0] ! j'))))"
proof -
  let ?R = "[\<lparr>keyword = js ''y'', index = 0\<rparr>, \<lparr>keyword = js ''z'', index = 1\<rparr>,
          \<lparr>keyword = js ''x'', index = 0\<rparr>, \<lparr>keyword = js ''f'', index = 0\<rparr>]"
  let ?e = "\<lparr>keyword = js ''x'', index = 0\<rparr>"
  have g: "getKeywords store_cycle 1 = Inr ?R"
    using getKeywords_run_store_cycle_1 by (simp add: getKeywords_def)
  from getKeywords_first_occurrence [OF g]
  obtain order where run: "getKeywords_run store_cycle 1 = Inr (order, ?R)"
    and all: "\<forall>e\<in>set ?R. \<exists>j<length order.
            index e < length (prop_values (objs store_cycle ! (order ! j))) \<and>
            keyword e \<in> set (keywordsFromValue (prop_values (objs store_cycle ! (order ! j)) ! index e)) \<and>
            (\<forall>i<index e.
                keyword e \<notin> set (keywordsFromValue (prop_values (objs store_cycle ! (order ! j)) ! i))) \<and>
            (\<forall>j'<j. keyword e \<notin> node_keywords (objs store_cycle ! (order ! j')))"
    by blast
  from run getKeywords_run_store_cycle_1 have order: "order = [1, 0]" by simp
  have "?e \<in> set ?R" by simp
  from bspec [OF all this] obtain j where "j < length order"
    "index ?e < length (prop_values (objs store_cycle ! (order ! j)))"
    "keyword ?e \<in> set (keywordsFromValue (prop_values (objs store_cycle ! (order ! j)) ! index ?e))"
    "\<forall>j'<j. keyword ?e \<notin> node_keywords (objs store_cycle ! (order ! j'))"
    by blast
  then have "j < length [1, 0 :: nat] \<and>
          (0::nat) < length (prop_values (objs store_cycle ! ([1, 0] ! j))) \<and>
          js ''x'' \<in> set (keywordsFromValue (prop_values (objs store_cycle ! ([1, 0] ! j)) ! 0)) \<and>
          (\<forall>j'<j. js ''x'' \<notin> node_keywords (objs store_cycle ! ([1, 0] ! j')))"
    unfolding order by (simp only: CSSKeywordRef.select_convs)
  then have "\<exists>j<length [1, 0 :: nat].
          (0::nat) < length (prop_values (objs store_cycle ! ([1, 0] ! j))) \<and>
          js ''x'' \<in> set (keywordsFromValue (prop_values (objs store_cycle ! ([1, 0] ! j)) ! 0)) \<and>
          (\<forall>j'<j. js ''x'' \<notin> node_keywords (objs store_cycle ! ([1, 0] ! j')))"
    by (rule exI [of _ j])
  with g show ?thesis by (rule conjI)
qed

end
